theory Spec2Isabelle
  imports Main "HOL-Library.Word" "HOL-Library.Char_ord" "HOL-Library.List_Lexorder"
begin

section \<open>JavaScript values\<close>

text \<open>
  The saver receives checkpoints, metadata and channel values as JavaScript values of
  type \<open>unknown\<close>. \<open>JObj\<close> is a plain object, given by what \<open>Object.entries\<close> returns
  (own enumerable string-keyed properties, in order; keys of a JavaScript object are
  distinct); \<open>JMap\<close> is a \<open>Map\<close>, the built-in mapping with keys
  of any type, whose content is not in own properties; \<open>JFunction\<close> stands for the
  values whose \<open>typeof\<close> is none of boolean, number, string, object. Numbers are
  restricted to the integers (NaN, the infinities and fractions are left out), symbols
  and bigints are left out.
\<close>

datatype jsval =
    JUndefined
  | JNull
  | JBool bool
  | JNum int
  | JStr string
  | JArr "jsval list"
  | JObj "(string \<times> jsval) list"
  | JMap "(jsval \<times> jsval) list"
  | JFunction

text \<open>The operator \<open>a ?? b\<close>.\<close>

definition nullish :: "jsval \<Rightarrow> bool" where
  "nullish v = (v = JNull \<or> v = JUndefined)"

definition coalesce :: "jsval \<Rightarrow> jsval \<Rightarrow> jsval" where
  "coalesce a b = (if nullish a then b else a)"

text \<open>Property read \<open>value[key]\<close> and the test \<open>key in value\<close> on a value.\<close>

fun get_prop :: "jsval \<Rightarrow> string \<Rightarrow> jsval" where
  "get_prop (JObj es) k = (case map_of es k of Some v \<Rightarrow> v | None \<Rightarrow> JUndefined)"
| "get_prop _ k = JUndefined"

fun has_key :: "jsval \<Rightarrow> string \<Rightarrow> bool" where
  "has_key (JObj es) k = (k \<in> set (map fst es))"
| "has_key _ k = False"

text \<open>\<open>typeof parsed === "object" && parsed !== null\<close>.\<close>

fun is_object :: "jsval \<Rightarrow> bool" where
  "is_object (JArr _) = True"
| "is_object (JObj _) = True"
| "is_object (JMap _) = True"
| "is_object _ = False"

subsection \<open>\<open>isSimpleJsonSerializable\<close> (base.ts)\<close>

fun isSimpleJsonSerializable :: "jsval \<Rightarrow> bool" where
  "isSimpleJsonSerializable JNull = True"
| "isSimpleJsonSerializable JUndefined = True"
| "isSimpleJsonSerializable (JBool _) = True"
| "isSimpleJsonSerializable (JNum _) = True"
| "isSimpleJsonSerializable (JStr _) = True"
| "isSimpleJsonSerializable (JArr xs) = list_all isSimpleJsonSerializable xs"
| "isSimpleJsonSerializable (JObj es) = list_all (\<lambda>kv. isSimpleJsonSerializable (snd kv)) es"
| "isSimpleJsonSerializable (JMap es) = True"
| "isSimpleJsonSerializable JFunction = False"


section \<open>Encoding\<close>

subsection \<open>JSON text\<close>

text \<open>
  The strings kept in the store are JSON documents, produced by \<open>JSON.stringify\<close> and
  read by \<open>JSON.parse\<close> only; a document is represented by its syntax tree.
  \<open>JSON.stringify\<close> returns \<open>undefined\<close> (here \<open>None\<close>) for \<open>undefined\<close> and for
  functions, writes \<open>null\<close> for them inside an array, leaves a property out whose value
  is one of them, and writes a \<open>Map\<close> as the empty object.
\<close>

datatype json =
    JsonNull
  | JsonBool bool
  | JsonNum int
  | JsonStr string
  | JsonArr "json list"
  | JsonObj "(string \<times> json) list"

fun json_stringify :: "jsval \<Rightarrow> json option" where
  "json_stringify JUndefined = None"
| "json_stringify JFunction = None"
| "json_stringify JNull = Some JsonNull"
| "json_stringify (JBool b) = Some (JsonBool b)"
| "json_stringify (JNum n) = Some (JsonNum n)"
| "json_stringify (JStr s) = Some (JsonStr s)"
| "json_stringify (JArr xs) =
     Some (JsonArr (map (\<lambda>x. case json_stringify x of None \<Rightarrow> JsonNull | Some j \<Rightarrow> j) xs))"
| "json_stringify (JObj es) =
     Some (JsonObj (concat (map (\<lambda>kv. case json_stringify (snd kv) of
                                        None \<Rightarrow> [] | Some j \<Rightarrow> [(fst kv, j)]) es)))"
| "json_stringify (JMap es) = Some (JsonObj [])"

fun json_parse :: "json \<Rightarrow> jsval" where
  "json_parse JsonNull = JNull"
| "json_parse (JsonBool b) = JBool b"
| "json_parse (JsonNum n) = JNum n"
| "json_parse (JsonStr s) = JStr s"
| "json_parse (JsonArr xs) = JArr (map json_parse xs)"
| "json_parse (JsonObj es) = JObj (map (\<lambda>kv. (fst kv, json_parse (snd kv))) es)"

subsection \<open>Numbers as text\<close>

definition digit_char :: "nat \<Rightarrow> char" where
  "digit_char d = ''0123456789abcdef'' ! (d mod 16)"

text \<open>\<open>n.toString(radix)\<close> for a natural number.\<close>

function nat_toString :: "nat \<Rightarrow> nat \<Rightarrow> string" where
  "nat_toString r n =
     (if n < r \<or> r < 2 then [digit_char n]
      else nat_toString r (n div r) @ [digit_char (n mod r)])"
  by pat_completeness auto
termination
  by (relation "measure (\<lambda>(r, n). n)") auto

text \<open>\<open>s.padStart(n, c)\<close> with a one-character filler.\<close>

definition padStart :: "nat \<Rightarrow> char \<Rightarrow> string \<Rightarrow> string" where
  "padStart n c s = replicate (n - length s) c @ s"

text \<open>\<open>parts.join(sep)\<close>.\<close>

fun join :: "string \<Rightarrow> string list \<Rightarrow> string" where
  "join sep [] = []"
| "join sep [x] = x"
| "join sep (x # y # ys) = x @ sep @ join sep (y # ys)"

text \<open>
  \<open>Object.entries(value)\<close> and \<open>Object.keys(value)\<close>, for a value that is neither
  \<open>null\<close> nor \<open>undefined\<close>: an array and a string have their indices as keys.
\<close>

fun object_entries :: "jsval \<Rightarrow> (string \<times> jsval) list" where
  "object_entries (JObj es) = es"
| "object_entries (JArr xs) = zip (map (nat_toString 10) [0 ..< length xs]) xs"
| "object_entries (JStr cs) = zip (map (nat_toString 10) [0 ..< length cs]) (map (\<lambda>c. JStr [c]) cs)"
| "object_entries _ = []"

text \<open>
  \<open>String(v)\<close>. A function prints as its source text, which the model does not have:
  the word \<open>function\<close> stands for it.
\<close>

fun js_String :: "jsval \<Rightarrow> string" where
  "js_String JUndefined = ''undefined''"
| "js_String JNull = ''null''"
| "js_String (JBool b) = (if b then ''true'' else ''false'')"
| "js_String (JNum n) = (if n < 0 then CHR ''-'' # nat_toString 10 (nat (- n)) else nat_toString 10 (nat n))"
| "js_String (JStr s) = s"
| "js_String (JArr xs) =
     join '','' (map (\<lambda>x. if x = JNull \<or> x = JUndefined then [] else js_String x) xs)"
| "js_String (JObj es) = ''[object Object]''"
| "js_String (JMap es) = ''[object Map]''"
| "js_String JFunction = ''function''"

subsection \<open>Bytes and hexadecimal text (base.ts)\<close>

type_synonym byte = "8 word"

definition bytesToHex :: "byte list \<Rightarrow> string" where
  "bytesToHex bytes = concat (map (\<lambda>b. padStart 2 CHR ''0'' (nat_toString 16 (unat b))) bytes)"

text \<open>
  \<open>parseInt(s, 16)\<close>: leading white space is skipped, a sign and a prefix \<open>0x\<close> are
  accepted, the longest run of hexadecimal digits is read, and the result is \<open>NaN\<close>
  (here \<open>None\<close>) when that run is empty.
\<close>

definition js_whitespace :: "char \<Rightarrow> bool" where
  "js_whitespace c = ((of_char c :: nat) \<in> {9, 10, 11, 12, 13, 32, 160})"

definition hex_value :: "char \<Rightarrow> nat option" where
  "hex_value c =
     (let n = (of_char c :: nat) in
      if 48 \<le> n \<and> n \<le> 57 then Some (n - 48)
      else if 97 \<le> n \<and> n \<le> 102 then Some (n - 87)
      else if 65 \<le> n \<and> n \<le> 70 then Some (n - 55)
      else None)"

fun hex_digits :: "string \<Rightarrow> nat list" where
  "hex_digits [] = []"
| "hex_digits (c # cs) = (case hex_value c of None \<Rightarrow> [] | Some d \<Rightarrow> d # hex_digits cs)"

definition parseInt16 :: "string \<Rightarrow> int option" where
  "parseInt16 s =
     (let s1 = dropWhile js_whitespace s;
          neg = (case s1 of c # _ \<Rightarrow> c = CHR ''-'' | [] \<Rightarrow> False);
          s2 = (case s1 of c # r \<Rightarrow> if c = CHR ''-'' \<or> c = CHR ''+'' then r else s1 | [] \<Rightarrow> s1);
          s3 = (case s2 of z # x # r \<Rightarrow>
                  if z = CHR ''0'' \<and> (x = CHR ''x'' \<or> x = CHR ''X'') then r else s2
                | _ \<Rightarrow> s2);
          ds = hex_digits s3
      in if ds = [] then None
         else Some ((if neg then - 1 else 1) * int (foldl (\<lambda>a d. 16 * a + d) 0 ds)))"

text \<open>Storing a number into a \<open>Uint8Array\<close>: \<open>NaN\<close> becomes 0, an integer wraps.\<close>

definition toUint8 :: "int option \<Rightarrow> byte" where
  "toUint8 r = (case r of None \<Rightarrow> 0 | Some n \<Rightarrow> word_of_int n)"

text \<open>
  \<open>hexToBytes\<close>: the array has \<open>floor(hex.length / 2)\<close> elements; the loop reads two
  characters at a time, and the write of a trailing single character falls outside the
  array.
\<close>

fun hexToBytes :: "string \<Rightarrow> byte list" where
  "hexToBytes (a # b # rest) = toUint8 (parseInt16 [a, b]) # hexToBytes rest"
| "hexToBytes _ = []"


subsection \<open>Errors\<close>

text \<open>
  Every \<open>throw\<close> and every rejected promise is a value. \<open>ThreadIdRequired\<close> and
  \<open>CheckpointIdRequired\<close> are the two \<open>Error\<close>s the source raises itself;
  \<open>TypeError\<close> is raised by the JavaScript runtime; \<open>SerializerError\<close> is whatever
  the serializer throws; a \<open>StoreError\<close> is a query rejected by the database.
\<close>

datatype store_error = ConstraintViolation | ParameterMissing | InvalidLimit

datatype error =
    ThreadIdRequired
  | CheckpointIdRequired
  | TypeError
  | SerializerError
  | StoreError store_error

definition andThen :: "error + 'a \<Rightarrow> ('a \<Rightarrow> error + 'b) \<Rightarrow> error + 'b" where
  "andThen m f = (case m of Inl e \<Rightarrow> Inl e | Inr x \<Rightarrow> f x)"

subsection \<open>The serializer\<close>

text \<open>
  \<open>this.serde\<close> is supplied by the caller. Its declared result type is
  \<open>[string, Uint8Array]\<close>; the source tests \<open>data instanceof Uint8Array\<close> all the same,
  so the other outcome is kept.
\<close>

datatype serde_data = Uint8Array "byte list" | NotUint8Array

record serde =
  dumpsTyped :: "jsval \<Rightarrow> error + (string \<times> serde_data)"
  loadsTyped :: "jsval \<Rightarrow> byte list \<Rightarrow> error + jsval"

text \<open>
  \<open>JSON.stringify({__serde_type__: type, __serde_data__: this.bytesToHex(data)})\<close>.
\<close>

definition serde_wrapper :: "string \<Rightarrow> byte list \<Rightarrow> json" where
  "serde_wrapper ty data =
     JsonObj [(''__serde_type__'', JsonStr ty), (''__serde_data__'', JsonStr (bytesToHex data))]"

text \<open>
  The cast \<open>parsed.__serde_data__ as string\<close> followed by \<open>hexToBytes\<close>, which reads
  \<open>hex.length\<close>: on \<open>undefined\<close> (the key is missing) and on \<open>null\<close> this is a
  \<open>TypeError\<close>. The model stops with \<open>TypeError\<close> on every value that is not a
  string, the declared type of the parameter.
\<close>

fun as_string :: "jsval \<Rightarrow> error + string" where
  "as_string (JStr s) = Inr s"
| "as_string _ = Inl TypeError"

definition load_wrapped :: "serde \<Rightarrow> jsval \<Rightarrow> error + jsval" where
  "load_wrapped sd parsed =
     andThen (as_string (get_prop parsed ''__serde_data__''))
       (\<lambda>hex. loadsTyped sd (get_prop parsed ''__serde_type__'') (hexToBytes hex))"

definition has_marker :: "jsval \<Rightarrow> bool" where
  "has_marker parsed = (is_object parsed \<and> has_key parsed ''__serde_type__'')"

subsection \<open>Checkpoint and metadata (base.ts)\<close>

text \<open>The second component is \<open>None\<close> when \<open>JSON.stringify\<close> returned \<open>undefined\<close>.\<close>

definition dumpCheckpoint :: "serde \<Rightarrow> jsval \<Rightarrow> error + (string \<times> json option)" where
  "dumpCheckpoint sd checkpoint =
     andThen (dumpsTyped sd checkpoint)
       (\<lambda>(ty, data). case data of
            Uint8Array bytes \<Rightarrow> Inr (''serde'', Some (serde_wrapper ty bytes))
          | NotUint8Array \<Rightarrow> Inr (''json'', json_stringify checkpoint))"

definition loadCheckpoint :: "serde \<Rightarrow> string \<Rightarrow> json \<Rightarrow> error + jsval" where
  "loadCheckpoint sd ty data =
     (let parsed = json_parse data in
      if has_marker parsed then load_wrapped sd parsed else Inr parsed)"

definition dumpMetadata :: "serde \<Rightarrow> jsval \<Rightarrow> error + (string \<times> json option)" where
  "dumpMetadata sd metadata =
     andThen (dumpsTyped sd metadata)
       (\<lambda>(serdeType, data). case data of
            Uint8Array bytes \<Rightarrow> Inr (''serde'', Some (serde_wrapper serdeType bytes))
          | NotUint8Array \<Rightarrow> Inr (''json'', json_stringify metadata))"

definition loadMetadata :: "serde \<Rightarrow> string \<Rightarrow> json \<Rightarrow> error + jsval" where
  "loadMetadata sd ty data =
     (let parsed = json_parse data in
      if has_marker parsed then load_wrapped sd parsed else Inr parsed)"

subsection \<open>Channel values (base.ts)\<close>

record BlobData =
  bd_channel :: string
  bd_version :: string
  bd_type :: string
  bd_blob :: "json option"

text \<open>\<open>String(channelVersions[channel] ?? "")\<close>.\<close>

definition channel_version :: "jsval \<Rightarrow> string \<Rightarrow> string" where
  "channel_version channelVersions channel =
     js_String (coalesce (get_prop channelVersions channel) (JStr []))"

text \<open>One turn of the loop of \<open>dumpBlobs\<close>.\<close>

definition dumpBlob :: "serde \<Rightarrow> jsval \<Rightarrow> string \<Rightarrow> jsval \<Rightarrow> error + BlobData" where
  "dumpBlob sd channelVersions channel val =
     (let version = channel_version channelVersions channel in
      if isSimpleJsonSerializable val then
        Inr \<lparr>bd_channel = channel, bd_version = version, bd_type = ''json'',
             bd_blob = json_stringify val\<rparr>
      else
        andThen (dumpsTyped sd val)
          (\<lambda>(ty, data). case data of
               Uint8Array bytes \<Rightarrow>
                 Inr \<lparr>bd_channel = channel, bd_version = version, bd_type = ''serde'',
                      bd_blob = Some (serde_wrapper ty bytes)\<rparr>
             | NotUint8Array \<Rightarrow>
                 Inr \<lparr>bd_channel = channel, bd_version = version, bd_type = ''json'',
                      bd_blob = json_stringify val\<rparr>))"

fun dumpBlobs_loop :: "serde \<Rightarrow> jsval \<Rightarrow> (string \<times> jsval) list \<Rightarrow> error + BlobData list" where
  "dumpBlobs_loop sd channelVersions [] = Inr []"
| "dumpBlobs_loop sd channelVersions ((channel, val) # rest) =
     andThen (dumpBlob sd channelVersions channel val)
       (\<lambda>b. andThen (dumpBlobs_loop sd channelVersions rest) (\<lambda>bs. Inr (b # bs)))"

definition dumpBlobs :: "serde \<Rightarrow> jsval \<Rightarrow> jsval \<Rightarrow> error + BlobData list" where
  "dumpBlobs sd channelValues channelVersions =
     dumpBlobs_loop sd channelVersions (object_entries channelValues)"

text \<open>The assignment \<open>obj[key] = value\<close> on the entries of a plain object.\<close>

fun set_prop :: "(string \<times> jsval) list \<Rightarrow> string \<Rightarrow> jsval \<Rightarrow> (string \<times> jsval) list" where
  "set_prop [] k v = [(k, v)]"
| "set_prop ((k', v') # es) k v = (if k' = k then (k, v) # es else (k', v') # set_prop es k v)"

text \<open>A row of \<open>CYPHER_GET_CHANNEL_STATES\<close> as \<open>getTuple\<close> keeps it.\<close>

record blob_record =
  br_channel :: string
  br_type :: string
  br_blob :: json

text \<open>The value one row decodes to, in \<open>loadBlobs\<close> and in \<open>loadWrites\<close>.\<close>

definition load_value :: "serde \<Rightarrow> string \<Rightarrow> json \<Rightarrow> error + jsval" where
  "load_value sd ty blob =
     (let parsed = json_parse blob in
      if ty = ''serde'' \<or> has_marker parsed then load_wrapped sd parsed else Inr parsed)"

fun loadBlobs_loop ::
  "serde \<Rightarrow> blob_record list \<Rightarrow> (string \<times> jsval) list \<Rightarrow> error + (string \<times> jsval) list" where
  "loadBlobs_loop sd [] channelValues = Inr channelValues"
| "loadBlobs_loop sd (r # rest) channelValues =
     andThen (load_value sd (br_type r) (br_blob r))
       (\<lambda>v. loadBlobs_loop sd rest (set_prop channelValues (br_channel r) v))"

definition loadBlobs :: "serde \<Rightarrow> blob_record list \<Rightarrow> error + (string \<times> jsval) list" where
  "loadBlobs sd blobRecords = loadBlobs_loop sd blobRecords []"

subsection \<open>Pending writes (base.ts)\<close>

record WriteRecord =
  wr_taskId :: string
  wr_taskPath :: string
  wr_idx :: nat
  wr_channel :: string
  wr_type :: string
  wr_blob :: "json option"

definition dumpWrite :: "serde \<Rightarrow> string \<Rightarrow> string \<Rightarrow> nat \<Rightarrow> string \<Rightarrow> jsval \<Rightarrow> error + WriteRecord" where
  "dumpWrite sd taskId taskPath idx channel val =
     (if isSimpleJsonSerializable val then
        Inr \<lparr>wr_taskId = taskId, wr_taskPath = taskPath, wr_idx = idx, wr_channel = channel,
             wr_type = ''json'', wr_blob = json_stringify val\<rparr>
      else
        andThen (dumpsTyped sd val)
          (\<lambda>(ty, data). case data of
               Uint8Array bytes \<Rightarrow>
                 Inr \<lparr>wr_taskId = taskId, wr_taskPath = taskPath, wr_idx = idx,
                      wr_channel = channel, wr_type = ''serde'',
                      wr_blob = Some (serde_wrapper ty bytes)\<rparr>
             | NotUint8Array \<Rightarrow>
                 Inr \<lparr>wr_taskId = taskId, wr_taskPath = taskPath, wr_idx = idx,
                      wr_channel = channel, wr_type = ''json'', wr_blob = json_stringify val\<rparr>))"

fun dumpWrites_loop ::
  "serde \<Rightarrow> string \<Rightarrow> string \<Rightarrow> nat \<Rightarrow> (string \<times> jsval) list \<Rightarrow> error + WriteRecord list" where
  "dumpWrites_loop sd taskId taskPath idx [] = Inr []"
| "dumpWrites_loop sd taskId taskPath idx ((channel, val) # rest) =
     andThen (dumpWrite sd taskId taskPath idx channel val)
       (\<lambda>w. andThen (dumpWrites_loop sd taskId taskPath (Suc idx) rest) (\<lambda>ws. Inr (w # ws)))"

text \<open>\<open>taskPath\<close> has the default \<open>""\<close>, and \<open>putWrites\<close> never passes it.\<close>

definition dumpWrites :: "serde \<Rightarrow> (string \<times> jsval) list \<Rightarrow> string \<Rightarrow> error + WriteRecord list" where
  "dumpWrites sd writes taskId = dumpWrites_loop sd taskId [] 0 writes"

record write_row =
  wrow_task_id :: string
  wrow_channel :: string
  wrow_type :: string
  wrow_blob :: json

fun loadWrites :: "serde \<Rightarrow> write_row list \<Rightarrow> error + (string \<times> string \<times> jsval) list" where
  "loadWrites sd [] = Inr []"
| "loadWrites sd (r # rest) =
     andThen (load_value sd (wrow_type r) (wrow_blob r))
       (\<lambda>v. andThen (loadWrites sd rest)
          (\<lambda>ws. Inr ((wrow_task_id r, wrow_channel r, v) # ws)))"

subsection \<open>Configuration and tuples (base.ts)\<close>

text \<open>The part \<open>config.configurable\<close> of a \<open>RunnableConfig\<close> that the saver reads.\<close>

record RunnableConfig =
  thread_id :: "string option"
  checkpoint_ns :: "string option"
  checkpoint_id :: "string option"

record ParsedConfig =
  threadId :: string
  checkpointNs :: string
  checkpointId :: "string option"

text \<open>\<open>!threadId\<close> holds for a missing and for an empty thread id.\<close>

definition parseConfig :: "RunnableConfig \<Rightarrow> error + ParsedConfig" where
  "parseConfig config =
     (case thread_id config of
        None \<Rightarrow> Inl ThreadIdRequired
      | Some t \<Rightarrow>
          if t = [] then Inl ThreadIdRequired
          else Inr \<lparr>threadId = t,
                    checkpointNs = (case checkpoint_ns config of None \<Rightarrow> [] | Some n \<Rightarrow> n),
                    checkpointId = checkpoint_id config\<rparr>)"

record CheckpointRecord =
  cr_thread_id :: string
  cr_checkpoint_ns :: string
  cr_checkpoint_id :: string
  cr_parent_checkpoint_id :: "string option"
  cr_type :: string
  cr_checkpoint :: json
  cr_metadata :: json

record CheckpointTuple =
  t_config :: RunnableConfig
  t_checkpoint :: jsval
  t_metadata :: jsval
  t_parentConfig :: "RunnableConfig option"
  t_pendingWrites :: "(string \<times> string \<times> jsval) list"

text \<open>
  \<open>makeCheckpointTuple\<close> does not read its second argument \<open>_channelValues\<close>: the
  checkpoint of the tuple is the decoded payload. \<open>if (parent_checkpoint_id)\<close> is false
  for \<open>null\<close> and for the empty string.
\<close>

definition makeCheckpointTuple ::
  "serde \<Rightarrow> CheckpointRecord \<Rightarrow> (string \<times> jsval) list \<Rightarrow> (string \<times> string \<times> jsval) list
     \<Rightarrow> error + CheckpointTuple" where
  "makeCheckpointTuple sd checkpointRecord channelValues pendingWrites' =
     andThen (loadCheckpoint sd (cr_type checkpointRecord) (cr_checkpoint checkpointRecord))
       (\<lambda>checkpoint'.
     andThen (loadMetadata sd (cr_type checkpointRecord) (cr_metadata checkpointRecord))
       (\<lambda>deserializedMetadata.
          Inr \<lparr>t_config = \<lparr>thread_id = Some (cr_thread_id checkpointRecord),
                          checkpoint_ns = Some (cr_checkpoint_ns checkpointRecord),
                          checkpoint_id = Some (cr_checkpoint_id checkpointRecord)\<rparr>,
               t_checkpoint = checkpoint',
               t_metadata = deserializedMetadata,
               t_parentConfig =
                 (case cr_parent_checkpoint_id checkpointRecord of
                    None \<Rightarrow> None
                  | Some p \<Rightarrow>
                      if p = [] then None
                      else Some \<lparr>thread_id = Some (cr_thread_id checkpointRecord),
                                 checkpoint_ns = Some (cr_checkpoint_ns checkpointRecord),
                                 checkpoint_id = Some p\<rparr>),
               t_pendingWrites = map (\<lambda>(taskId, channel, val). (taskId, channel, val)) pendingWrites'\<rparr>))"


section \<open>The graph store and the queries (cypher-queries.ts)\<close>

text \<open>
  The database is a property graph: nodes of five labels and relationships of eight
  types. A node is identified by a number the database draws; relationships of one
  type are kept as a list of pairs (source, target), since \<open>CREATE\<close> adds a
  relationship even when an equal one exists. Lists are in order of creation, which is
  the order in which a \<open>MATCH\<close> returns rows here. \<open>constraints\<close> tells whether
  \<open>setup()\<close> has installed the four uniqueness constraints. The property
  \<open>created_at\<close> is left out: among the queries that the saver runs none reads it.
\<close>

type_synonym node = nat

record Thread =
  th_thread_id :: string
  th_checkpoint_ns :: string

record Checkpoint =
  cp_checkpoint_id :: string
  cp_type :: string
  cp_checkpoint :: json
  cp_metadata :: json

record ChannelState =
  cs_channel :: string
  cs_version :: string
  cs_type :: string
  cs_blob :: json

record PendingWrite =
  pw_task_id :: string
  pw_task_path :: string
  pw_idx :: nat
  pw_channel :: string
  pw_type :: string
  pw_blob :: json

record Branch =
  b_branch_id :: string
  b_name :: string
  b_fork_point_id :: "string option"

record store =
  constraints :: bool
  fresh :: node
  Threads :: "(node \<times> Thread) list"
  Checkpoints :: "(node \<times> Checkpoint) list"
  ChannelStates :: "(node \<times> ChannelState) list"
  PendingWrites :: "(node \<times> PendingWrite) list"
  Branches :: "(node \<times> Branch) list"
  HAS_CHECKPOINT :: "(node \<times> node) list"
  PREVIOUS :: "(node \<times> node) list"
  HAS_CHANNEL :: "(node \<times> node) list"
  HAS_WRITE :: "(node \<times> node) list"
  HAS_BRANCH :: "(node \<times> node) list"
  ACTIVE_BRANCH :: "(node \<times> node) list"
  HEAD :: "(node \<times> node) list"
  ON_BRANCH :: "(node \<times> node) list"

definition empty_store :: "bool \<Rightarrow> store" where
  "empty_store c =
     \<lparr>constraints = c, fresh = 0, Threads = [], Checkpoints = [], ChannelStates = [],
      PendingWrites = [], Branches = [], HAS_CHECKPOINT = [], PREVIOUS = [], HAS_CHANNEL = [],
      HAS_WRITE = [], HAS_BRANCH = [], ACTIVE_BRANCH = [], HEAD = [], ON_BRANCH = []\<rparr>"

subsection \<open>Patterns\<close>

text \<open>\<open>MATCH (t:Thread {thread_id: $thread_id, checkpoint_ns: $checkpoint_ns})\<close>.\<close>

definition match_thread :: "store \<Rightarrow> string \<Rightarrow> string \<Rightarrow> node list" where
  "match_thread s tid ns =
     map fst (filter (\<lambda>(n, t). th_thread_id t = tid \<and> th_checkpoint_ns t = ns) (Threads s))"

text \<open>\<open>MATCH (c:Checkpoint {checkpoint_id: $checkpoint_id})\<close>.\<close>

definition match_checkpoint :: "store \<Rightarrow> string \<Rightarrow> node list" where
  "match_checkpoint s cid =
     map fst (filter (\<lambda>(n, c). cp_checkpoint_id c = cid) (Checkpoints s))"

text \<open>\<open>(cs:ChannelState {channel: $channel, version: $version})\<close>.\<close>

definition match_channel_state :: "store \<Rightarrow> string \<Rightarrow> string \<Rightarrow> node list" where
  "match_channel_state s ch ver =
     map fst (filter (\<lambda>(n, x). cs_channel x = ch \<and> cs_version x = ver) (ChannelStates s))"

text \<open>\<open>(b:Branch {branch_id: $branch_id})\<close>.\<close>

definition match_branch :: "store \<Rightarrow> string \<Rightarrow> node list" where
  "match_branch s bid = map fst (filter (\<lambda>(n, b). b_branch_id b = bid) (Branches s))"

text \<open>The targets of the relationships of one type that leave a node, one per relationship.\<close>

definition out_of :: "(node \<times> node) list \<Rightarrow> node \<Rightarrow> node list" where
  "out_of es a = map snd (filter (\<lambda>(x, y). x = a) es)"

text \<open>
  \<open>OPTIONAL MATCH\<close> keeps a row that has no match, with \<open>null\<close>; \<open>WITH x\<close> after it
  keeps one row per match, so a row with \<open>k\<close> matches is there \<open>max 1 k\<close> times.
\<close>

definition optional :: "'a list \<Rightarrow> 'a option list" where
  "optional xs = (if xs = [] then [None] else map Some xs)"

text \<open>\<open>MERGE (a)-[:R]->(b)\<close> for each row: the relationship is added unless it is there.\<close>

fun merge_edges :: "(node \<times> node) list \<Rightarrow> (node \<times> node) list \<Rightarrow> (node \<times> node) list" where
  "merge_edges es [] = es"
| "merge_edges es (r # rows) = merge_edges (if r \<in> set es then es else es @ [r]) rows"

text \<open>\<open>DETACH DELETE\<close> of a set of nodes: the nodes go, and every relationship at them.\<close>

definition without_nodes :: "node list \<Rightarrow> (node \<times> 'a) list \<Rightarrow> (node \<times> 'a) list" where
  "without_nodes d ns = filter (\<lambda>(n, x). n \<notin> set d) ns"

definition without_edges :: "node list \<Rightarrow> (node \<times> node) list \<Rightarrow> (node \<times> node) list" where
  "without_edges d es = filter (\<lambda>(a, b). a \<notin> set d \<and> b \<notin> set d) es"

definition detach_delete :: "node list \<Rightarrow> store \<Rightarrow> store" where
  "detach_delete d s =
     s\<lparr>Threads := without_nodes d (Threads s),
       Checkpoints := without_nodes d (Checkpoints s),
       ChannelStates := without_nodes d (ChannelStates s),
       PendingWrites := without_nodes d (PendingWrites s),
       Branches := without_nodes d (Branches s),
       HAS_CHECKPOINT := without_edges d (HAS_CHECKPOINT s),
       PREVIOUS := without_edges d (PREVIOUS s),
       HAS_CHANNEL := without_edges d (HAS_CHANNEL s),
       HAS_WRITE := without_edges d (HAS_WRITE s),
       HAS_BRANCH := without_edges d (HAS_BRANCH s),
       ACTIVE_BRANCH := without_edges d (ACTIVE_BRANCH s),
       HEAD := without_edges d (HEAD s),
       ON_BRANCH := without_edges d (ON_BRANCH s)\<rparr>"

text \<open>The numbers of \<open>k\<close> nodes created in one query.\<close>

definition new_nodes :: "store \<Rightarrow> nat \<Rightarrow> node list" where
  "new_nodes s k = [fresh s ..< fresh s + k]"

subsection \<open>Writing a checkpoint\<close>

text \<open>
  \<open>CYPHER_UPSERT_CHECKPOINT_SIMPLE\<close>: \<open>MERGE\<close> of the thread, then \<open>CREATE\<close> of a
  Checkpoint and of its \<open>HAS_CHECKPOINT\<close> relationship for each row. With the constraint
  \<open>checkpoint_id_unique\<close> the \<open>CREATE\<close> of a second node with the same
  \<open>checkpoint_id\<close> is rejected, and the query leaves the store as it was.
\<close>

definition CYPHER_UPSERT_CHECKPOINT_SIMPLE ::
  "store \<Rightarrow> string \<Rightarrow> string \<Rightarrow> string \<Rightarrow> string \<Rightarrow> json \<Rightarrow> json \<Rightarrow> store_error + store" where
  "CYPHER_UPSERT_CHECKPOINT_SIMPLE s tid ns cid ty cp md =
     (let ts = match_thread s tid ns;
          s1 = (if ts = [] then
                  s\<lparr>fresh := Suc (fresh s),
                    Threads := Threads s @ [(fresh s, \<lparr>th_thread_id = tid, th_checkpoint_ns = ns\<rparr>)]\<rparr>
                else s);
          rows = (if ts = [] then [fresh s] else ts);
          cs = new_nodes s1 (length rows)
      in if constraints s \<and> (match_checkpoint s cid \<noteq> [] \<or> 1 < length rows)
         then Inl ConstraintViolation
         else Inr (s1\<lparr>fresh := fresh s1 + length rows,
                      Checkpoints := Checkpoints s1 @
                        map (\<lambda>c. (c, \<lparr>cp_checkpoint_id = cid, cp_type = ty,
                                       cp_checkpoint = cp, cp_metadata = md\<rparr>)) cs,
                      HAS_CHECKPOINT := HAS_CHECKPOINT s1 @ zip rows cs\<rparr>))"

text \<open>\<open>CYPHER_LINK_PARENT_CHECKPOINT\<close>: no row, and no relationship, when either node is missing.\<close>

definition CYPHER_LINK_PARENT_CHECKPOINT :: "store \<Rightarrow> string \<Rightarrow> string \<Rightarrow> store" where
  "CYPHER_LINK_PARENT_CHECKPOINT s cid pid =
     s\<lparr>PREVIOUS := merge_edges (PREVIOUS s)
          (concat (map (\<lambda>c. map (\<lambda>p. (c, p)) (match_checkpoint s pid)) (match_checkpoint s cid)))\<rparr>"

text \<open>
  \<open>CYPHER_UPSERT_CHANNEL_STATE\<close>: for each matched checkpoint, \<open>MERGE\<close> of the
  ChannelState with this channel and version (\<open>ON CREATE SET\<close> writes type and blob
  only when the node is new), then \<open>CREATE\<close> of a \<open>HAS_CHANNEL\<close> relationship.
\<close>

definition CYPHER_UPSERT_CHANNEL_STATE ::
  "store \<Rightarrow> string \<Rightarrow> string \<Rightarrow> string \<Rightarrow> string \<Rightarrow> json \<Rightarrow> store" where
  "CYPHER_UPSERT_CHANNEL_STATE s cid ch ver ty blob =
     (let rows = match_checkpoint s cid; found = match_channel_state s ch ver in
      if rows = [] then s
      else
        (let s1 = (if found = [] then
                     s\<lparr>fresh := Suc (fresh s),
                       ChannelStates := ChannelStates s @
                         [(fresh s, \<lparr>cs_channel = ch, cs_version = ver, cs_type = ty, cs_blob = blob\<rparr>)]\<rparr>
                   else s);
             css = (if found = [] then [fresh s] else found)
         in s1\<lparr>HAS_CHANNEL := HAS_CHANNEL s1 @
                  concat (map (\<lambda>c. map (\<lambda>x. (c, x)) css) rows)\<rparr>))"

text \<open>
  \<open>CYPHER_THREAD_HAS_BRANCHES\<close>: \<open>count(b)\<close> grouped by the thread id; there is no
  record when no thread matches.
\<close>

definition CYPHER_THREAD_HAS_BRANCHES :: "store \<Rightarrow> string \<Rightarrow> string \<Rightarrow> nat option" where
  "CYPHER_THREAD_HAS_BRANCHES s tid ns =
     (let ts = match_thread s tid ns in
      if ts = [] then None
      else Some (length (concat (map (\<lambda>t. filter (\<lambda>b. b \<in> fst ` set (Branches s))
                                              (out_of (HAS_BRANCH s) t)) ts))))"

text \<open>\<open>CYPHER_CREATE_MAIN_BRANCH\<close>, with the constraint \<open>branch_id_unique\<close>.\<close>

definition CYPHER_CREATE_MAIN_BRANCH :: "store \<Rightarrow> string \<Rightarrow> string \<Rightarrow> string \<Rightarrow> store_error + store" where
  "CYPHER_CREATE_MAIN_BRANCH s tid ns bid =
     (let rows = filter (\<lambda>t. out_of (HAS_BRANCH s) t = []) (match_thread s tid ns);
          bs = new_nodes s (length rows)
      in if constraints s \<and> rows \<noteq> [] \<and> (match_branch s bid \<noteq> [] \<or> 1 < length rows)
         then Inl ConstraintViolation
         else Inr (s\<lparr>fresh := fresh s + length rows,
                     Branches := Branches s @
                       map (\<lambda>b. (b, \<lparr>b_branch_id = bid, b_name = ''main'', b_fork_point_id = None\<rparr>)) bs,
                     HAS_BRANCH := HAS_BRANCH s @ zip rows bs,
                     ACTIVE_BRANCH := ACTIVE_BRANCH s @ zip rows bs\<rparr>))"

text \<open>
  \<open>CYPHER_UPDATE_BRANCH_HEAD\<close>: the \<open>HEAD\<close> relationships of the active branch are
  deleted, then one is created to each matched checkpoint, and \<open>ON_BRANCH\<close> is merged.
\<close>

definition CYPHER_UPDATE_BRANCH_HEAD :: "store \<Rightarrow> string \<Rightarrow> string \<Rightarrow> string \<Rightarrow> store" where
  "CYPHER_UPDATE_BRANCH_HEAD s tid ns cid =
     (let bs = concat (map (\<lambda>t. filter (\<lambda>b. b \<in> fst ` set (Branches s))
                                   (out_of (ACTIVE_BRANCH s) t)) (match_thread s tid ns));
          rows = concat (map (\<lambda>b. map (\<lambda>old. b) (optional (out_of (HEAD s) b))) bs);
          pairs = concat (map (\<lambda>b. map (\<lambda>c. (b, c)) (match_checkpoint s cid)) rows)
      in s\<lparr>HEAD := filter (\<lambda>(b, c). b \<notin> set bs) (HEAD s) @ pairs,
           ON_BRANCH := merge_edges (ON_BRANCH s) (map (\<lambda>(b, c). (c, b)) pairs)\<rparr>)"

text \<open>\<open>CYPHER_UPSERT_WRITE\<close>.\<close>

definition CYPHER_UPSERT_WRITE ::
  "store \<Rightarrow> string \<Rightarrow> string \<Rightarrow> string \<Rightarrow> nat \<Rightarrow> string \<Rightarrow> string \<Rightarrow> json \<Rightarrow> store" where
  "CYPHER_UPSERT_WRITE s cid task path i ch ty blob =
     (let rows = match_checkpoint s cid; ws = new_nodes s (length rows) in
      s\<lparr>fresh := fresh s + length rows,
        PendingWrites := PendingWrites s @
          map (\<lambda>w. (w, \<lparr>pw_task_id = task, pw_task_path = path, pw_idx = i, pw_channel = ch,
                         pw_type = ty, pw_blob = blob\<rparr>)) ws,
        HAS_WRITE := HAS_WRITE s @ zip rows ws\<rparr>)"


subsection \<open>Reading checkpoints\<close>

text \<open>The node of a label with a given number.\<close>

definition node_of :: "(node \<times> 'a) list \<Rightarrow> node \<Rightarrow> 'a option" where
  "node_of ns n = map_of ns n"

text \<open>The nodes of a label among the targets of the relationships that leave a node.\<close>

definition targets :: "(node \<times> node) list \<Rightarrow> (node \<times> 'a) list \<Rightarrow> node \<Rightarrow> (node \<times> 'a) list" where
  "targets es ns a =
     concat (map (\<lambda>n. case node_of ns n of None \<Rightarrow> [] | Some x \<Rightarrow> [(n, x)]) (out_of es a))"

text \<open>
  \<open>MATCH (t:Thread {...})-[:HAS_CHECKPOINT]->(c:Checkpoint)\<close>: the checkpoints of a thread.
\<close>

definition thread_checkpoints :: "store \<Rightarrow> string \<Rightarrow> string \<Rightarrow> (node \<times> Checkpoint) list" where
  "thread_checkpoints s tid ns =
     concat (map (targets (HAS_CHECKPOINT s) (Checkpoints s)) (match_thread s tid ns))"

text \<open>
  \<open>OPTIONAL MATCH (c)-[:PREVIOUS]->(parent:Checkpoint)\<close> and the \<open>RETURN\<close> clause that
  the four reading queries share.
\<close>

definition checkpoint_records ::
  "store \<Rightarrow> string \<Rightarrow> string \<Rightarrow> (node \<times> Checkpoint) list \<Rightarrow> CheckpointRecord list" where
  "checkpoint_records s tid ns cs =
     concat (map (\<lambda>(c, ck).
        map (\<lambda>parent.
              \<lparr>cr_thread_id = tid, cr_checkpoint_ns = ns,
               cr_checkpoint_id = cp_checkpoint_id ck,
               cr_parent_checkpoint_id = map_option (\<lambda>(p, pk). cp_checkpoint_id pk) parent,
               cr_type = cp_type ck, cr_checkpoint = cp_checkpoint ck,
               cr_metadata = cp_metadata ck\<rparr>)
            (optional (targets (PREVIOUS s) (Checkpoints s) c))) cs)"

text \<open>\<open>ORDER BY c.checkpoint_id DESC\<close>; strings are compared character by character.\<close>

definition order_desc :: "(node \<times> Checkpoint) list \<Rightarrow> (node \<times> Checkpoint) list" where
  "order_desc cs = rev (sort_key (\<lambda>(c, ck). cp_checkpoint_id ck) cs)"

definition CYPHER_GET_CHECKPOINT_BY_ID ::
  "store \<Rightarrow> string \<Rightarrow> string \<Rightarrow> string \<Rightarrow> CheckpointRecord list" where
  "CYPHER_GET_CHECKPOINT_BY_ID s tid ns cid =
     checkpoint_records s tid ns
       (filter (\<lambda>(c, ck). cp_checkpoint_id ck = cid) (thread_checkpoints s tid ns))"

definition CYPHER_GET_LATEST_CHECKPOINT :: "store \<Rightarrow> string \<Rightarrow> string \<Rightarrow> CheckpointRecord list" where
  "CYPHER_GET_LATEST_CHECKPOINT s tid ns =
     checkpoint_records s tid ns (take 1 (order_desc (thread_checkpoints s tid ns)))"

definition CYPHER_GET_ACTIVE_BRANCH_HEAD :: "store \<Rightarrow> string \<Rightarrow> string \<Rightarrow> CheckpointRecord list" where
  "CYPHER_GET_ACTIVE_BRANCH_HEAD s tid ns =
     checkpoint_records s tid ns
       (concat (map (\<lambda>t.
          concat (map (\<lambda>(b, bk). targets (HEAD s) (Checkpoints s) b)
                      (targets (ACTIVE_BRANCH s) (Branches s) t)))
          (match_thread s tid ns)))"

text \<open>
  \<open>CYPHER_GET_CHANNEL_STATES\<close>: the ChannelStates of the checkpoint whose channel is
  among \<open>$channels\<close> and whose version is among \<open>$versions\<close>.
\<close>

definition CYPHER_GET_CHANNEL_STATES ::
  "store \<Rightarrow> string \<Rightarrow> string list \<Rightarrow> string list \<Rightarrow> ChannelState list" where
  "CYPHER_GET_CHANNEL_STATES s cid channels versions =
     filter (\<lambda>x. cs_channel x \<in> set channels \<and> cs_version x \<in> set versions)
       (concat (map (\<lambda>c. map snd (targets (HAS_CHANNEL s) (ChannelStates s) c))
                    (match_checkpoint s cid)))"

text \<open>\<open>CYPHER_GET_WRITES\<close>, \<open>ORDER BY w.idx\<close>.\<close>

definition CYPHER_GET_WRITES :: "store \<Rightarrow> string \<Rightarrow> PendingWrite list" where
  "CYPHER_GET_WRITES s cid =
     sort_key pw_idx
       (concat (map (\<lambda>c. map snd (targets (HAS_WRITE s) (PendingWrites s) c))
                    (match_checkpoint s cid)))"

text \<open>
  \<open>CYPHER_LIST_CHECKPOINTS\<close>: \<open>$before_id IS NULL OR c.checkpoint_id < $before_id\<close>,
  newest first, \<open>LIMIT $limit\<close>. A negative limit is rejected by the database.
\<close>

definition CYPHER_LIST_CHECKPOINTS ::
  "store \<Rightarrow> string \<Rightarrow> string \<Rightarrow> string option \<Rightarrow> int \<Rightarrow> store_error + CheckpointRecord list" where
  "CYPHER_LIST_CHECKPOINTS s tid ns before_id limit =
     (if limit < 0 then Inl InvalidLimit
      else Inr (checkpoint_records s tid ns
             (take (nat limit)
               (order_desc
                 (filter (\<lambda>(c, ck). case before_id of None \<Rightarrow> True
                                      | Some b \<Rightarrow> cp_checkpoint_id ck < b)
                         (thread_checkpoints s tid ns))))))"

subsection \<open>Deleting\<close>

text \<open>
  \<open>CYPHER_DELETE_THREAD\<close> matches the threads of every namespace with this thread id,
  their checkpoints, the pending writes of these, and their branches.
\<close>

definition CYPHER_DELETE_THREAD :: "store \<Rightarrow> string \<Rightarrow> store" where
  "CYPHER_DELETE_THREAD s tid =
     (let ts = map fst (filter (\<lambda>(n, t). th_thread_id t = tid) (Threads s));
          cs = concat (map (\<lambda>t. map fst (targets (HAS_CHECKPOINT s) (Checkpoints s) t)) ts);
          ws = concat (map (\<lambda>c. map fst (targets (HAS_WRITE s) (PendingWrites s) c)) cs);
          bs = concat (map (\<lambda>t. map fst (targets (HAS_BRANCH s) (Branches s) t)) ts)
      in detach_delete (ts @ cs @ ws @ bs) s)"

definition CYPHER_DELETE_ORPHAN_CHANNEL_STATES :: "store \<Rightarrow> store" where
  "CYPHER_DELETE_ORPHAN_CHANNEL_STATES s =
     s\<lparr>ChannelStates := filter (\<lambda>(n, x). n \<in> snd ` set (HAS_CHANNEL s)) (ChannelStates s)\<rparr>"

subsection \<open>Branches\<close>

text \<open>
  \<open>CYPHER_CREATE_BRANCH\<close>: the branch and its \<open>HAS_BRANCH\<close> relationship are created
  for each matched thread; \<open>HEAD\<close> is created, and a record returned, only where the fork
  point matches a checkpoint. The result is the store and the number of records.
\<close>

definition CYPHER_CREATE_BRANCH ::
  "store \<Rightarrow> string \<Rightarrow> string \<Rightarrow> string \<Rightarrow> string \<Rightarrow> string \<Rightarrow> store_error + store \<times> nat" where
  "CYPHER_CREATE_BRANCH s tid ns bid name fork =
     (let rows = match_thread s tid ns;
          bs = new_nodes s (length rows);
          heads = concat (map (\<lambda>b. map (\<lambda>c. (b, c)) (match_checkpoint s fork)) bs)
      in if constraints s \<and> rows \<noteq> [] \<and> (match_branch s bid \<noteq> [] \<or> 1 < length rows)
         then Inl ConstraintViolation
         else Inr (s\<lparr>fresh := fresh s + length rows,
                     Branches := Branches s @
                       map (\<lambda>b. (b, \<lparr>b_branch_id = bid, b_name = name, b_fork_point_id = Some fork\<rparr>)) bs,
                     HAS_BRANCH := HAS_BRANCH s @ zip rows bs,
                     HEAD := HEAD s @ heads\<rparr>, length heads))"

text \<open>
  \<open>CYPHER_SET_ACTIVE_BRANCH\<close>: the \<open>ACTIVE_BRANCH\<close> relationships of the thread are
  deleted first; the new one is created, and a record returned, for each branch of the
  thread with this branch id.
\<close>

definition CYPHER_SET_ACTIVE_BRANCH :: "store \<Rightarrow> string \<Rightarrow> string \<Rightarrow> string \<Rightarrow> store \<times> nat" where
  "CYPHER_SET_ACTIVE_BRANCH s tid ns bid =
     (let ts = match_thread s tid ns;
          rows = concat (map (\<lambda>t. map (\<lambda>old. t) (optional (out_of (ACTIVE_BRANCH s) t))) ts);
          pairs = concat (map (\<lambda>t. map (\<lambda>(b, bk). (t, b))
                     (filter (\<lambda>(b, bk). b_branch_id bk = bid)
                             (targets (HAS_BRANCH s) (Branches s) t))) rows)
      in (s\<lparr>ACTIVE_BRANCH := filter (\<lambda>(t, b). t \<notin> set ts) (ACTIVE_BRANCH s) @ pairs\<rparr>,
          length pairs))"

text \<open>\<open>CYPHER_DELETE_BRANCH\<close>: \<open>DETACH DELETE\<close> of the branches with this id.\<close>

definition CYPHER_DELETE_BRANCH :: "store \<Rightarrow> string \<Rightarrow> store" where
  "CYPHER_DELETE_BRANCH s bid = detach_delete (match_branch s bid) s"


section \<open>The saver (saver.ts)\<close>

text \<open>
  Each \<open>session.run\<close> is a transaction of its own: a query that is rejected changes
  nothing, and what the earlier queries of the same call wrote stays. An operation
  therefore returns the store it leaves together with its result or its error. A
  parameter whose value is \<open>undefined\<close> is not sent by the driver, and the database
  rejects the query for the missing parameter.
\<close>

text \<open>Step 3 of \<open>put\<close>: the loop over the blobs.\<close>

fun put_blobs :: "store \<Rightarrow> string \<Rightarrow> BlobData list \<Rightarrow> store \<times> error option" where
  "put_blobs s cid [] = (s, None)"
| "put_blobs s cid (blob # rest) =
     (case bd_blob blob of
        None \<Rightarrow> (s, Some (StoreError ParameterMissing))
      | Some j \<Rightarrow>
          put_blobs (CYPHER_UPSERT_CHANNEL_STATE s cid (bd_channel blob) (bd_version blob)
                       (bd_type blob) j) cid rest)"

text \<open>Step 4 of \<open>put\<close>: the main branch, then the head of the active branch.\<close>

definition put_branch :: "store \<Rightarrow> string \<Rightarrow> string \<Rightarrow> string \<Rightarrow> string \<Rightarrow> store \<times> error option" where
  "put_branch s tid ns cid uuid =
     (case (if CYPHER_THREAD_HAS_BRANCHES s tid ns = Some 0
            then CYPHER_CREATE_MAIN_BRANCH s tid ns uuid else Inr s) of
        Inl e \<Rightarrow> (s, Some (StoreError e))
      | Inr s1 \<Rightarrow> (CYPHER_UPDATE_BRANCH_HEAD s1 tid ns cid, None))"

text \<open>Step 2 of \<open>put\<close>: \<open>if (parentCheckpointId)\<close> is false for a missing and for an empty id.\<close>

definition put_parent :: "store \<Rightarrow> ParsedConfig \<Rightarrow> string \<Rightarrow> store" where
  "put_parent s1 pc cid =
     (case checkpointId pc of
        None \<Rightarrow> s1
      | Some parent \<Rightarrow> if parent = [] then s1 else CYPHER_LINK_PARENT_CHECKPOINT s1 cid parent)"

text \<open>Steps 2 to 4, after the checkpoint node has been created.\<close>

definition put_steps ::
  "serde \<Rightarrow> store \<Rightarrow> ParsedConfig \<Rightarrow> string \<Rightarrow> jsval \<Rightarrow> string \<Rightarrow> store \<times> (error + RunnableConfig)" where
  "put_steps sd s1 pc cid checkpoint uuid =
     (let channelValues = coalesce (get_prop checkpoint ''channel_values'') (JObj []);
          channelVersions = coalesce (get_prop checkpoint ''channel_versions'') (JObj []);
          s2 = put_parent s1 pc cid
      in case dumpBlobs sd channelValues channelVersions of
           Inl e \<Rightarrow> (s2, Inl e)
         | Inr blobs \<Rightarrow>
             (case put_blobs s2 cid blobs of
                (s3, Some e) \<Rightarrow> (s3, Inl e)
              | (s3, None) \<Rightarrow>
                  (case put_branch s3 (threadId pc) (checkpointNs pc) cid uuid of
                     (s4, Some e) \<Rightarrow> (s4, Inl e)
                   | (s4, None) \<Rightarrow>
                       (s4, Inr \<lparr>thread_id = Some (threadId pc),
                                 checkpoint_ns = Some (checkpointNs pc),
                                 checkpoint_id = Some cid\<rparr>))))"

text \<open>
  \<open>put\<close>. The last argument is the value that \<open>crypto.randomUUID()\<close> returns if the
  main branch is created. \<open>checkpoint.id\<close> has the declared type \<open>string\<close>; on another
  value the model stops where the id is first sent to the database.
\<close>

definition put ::
  "serde \<Rightarrow> store \<Rightarrow> RunnableConfig \<Rightarrow> jsval \<Rightarrow> jsval \<Rightarrow> jsval \<Rightarrow> string
     \<Rightarrow> store \<times> (error + RunnableConfig)" where
  "put sd s config' checkpoint' metadata' newVersions uuid =
     (case parseConfig config' of
        Inl e \<Rightarrow> (s, Inl e)
      | Inr pc \<Rightarrow>
     (if nullish checkpoint' then (s, Inl TypeError) else
     (case dumpCheckpoint sd checkpoint' of
        Inl e \<Rightarrow> (s, Inl e)
      | Inr (ty, serializedCheckpoint) \<Rightarrow>
     (case dumpMetadata sd metadata' of
        Inl e \<Rightarrow> (s, Inl e)
      | Inr (mty, serializedMetadata) \<Rightarrow>
     (case as_string (get_prop checkpoint' ''id'') of
        Inl e \<Rightarrow> (s, Inl e)
      | Inr cid \<Rightarrow>
     (case (serializedCheckpoint, serializedMetadata) of
        (Some sc, Some sm) \<Rightarrow>
          (case CYPHER_UPSERT_CHECKPOINT_SIMPLE s (threadId pc) (checkpointNs pc) cid ty sc sm of
             Inl e \<Rightarrow> (s, Inl (StoreError e))
           | Inr s1 \<Rightarrow> put_steps sd s1 pc cid checkpoint' uuid)
      | _ \<Rightarrow> (s, Inl (StoreError ParameterMissing))))))))"

text \<open>\<open>putWrites\<close>; \<open>!checkpointId\<close> holds for a missing and for an empty id.\<close>

fun put_write_records :: "store \<Rightarrow> string \<Rightarrow> WriteRecord list \<Rightarrow> store \<times> error option" where
  "put_write_records s cid [] = (s, None)"
| "put_write_records s cid (r # rest) =
     (case wr_blob r of
        None \<Rightarrow> (s, Some (StoreError ParameterMissing))
      | Some j \<Rightarrow>
          put_write_records
            (CYPHER_UPSERT_WRITE s cid (wr_taskId r) (wr_taskPath r) (wr_idx r) (wr_channel r)
               (wr_type r) j) cid rest)"

definition putWrites ::
  "serde \<Rightarrow> store \<Rightarrow> RunnableConfig \<Rightarrow> (string \<times> jsval) list \<Rightarrow> string \<Rightarrow> store \<times> error option" where
  "putWrites sd s config' writes taskId =
     (case parseConfig config' of
        Inl e \<Rightarrow> (s, Some e)
      | Inr pc \<Rightarrow>
          (case checkpointId pc of
             None \<Rightarrow> (s, Some CheckpointIdRequired)
           | Some cid \<Rightarrow>
               if cid = [] then (s, Some CheckpointIdRequired)
               else (case dumpWrites sd writes taskId of
                       Inl e \<Rightarrow> (s, Some e)
                     | Inr writeRecords \<Rightarrow> put_write_records s cid writeRecords)))"

text \<open>
  \<open>getTuple\<close>: \<open>Inr None\<close> is the result \<open>undefined\<close>. The channel values decoded from
  the ChannelState rows are handed to \<open>makeCheckpointTuple\<close>, which drops them.
\<close>

definition getTuple_record ::
  "serde \<Rightarrow> store \<Rightarrow> CheckpointRecord \<Rightarrow> error + CheckpointTuple" where
  "getTuple_record sd s checkpointRecord =
     andThen (loadCheckpoint sd (cr_type checkpointRecord) (cr_checkpoint checkpointRecord))
       (\<lambda>checkpoint'.
     if nullish checkpoint' then Inl TypeError else
     (let channelVersions = coalesce (get_prop checkpoint' ''channel_versions'') (JObj [])
      in
     andThen
       (if object_entries channelVersions \<noteq> [] then
          loadBlobs sd
            (map (\<lambda>x. \<lparr>br_channel = cs_channel x, br_type = cs_type x, br_blob = cs_blob x\<rparr>)
               (CYPHER_GET_CHANNEL_STATES s (cr_checkpoint_id checkpointRecord)
                  (map fst (object_entries channelVersions))
                  (map (\<lambda>kv. js_String (snd kv)) (object_entries channelVersions))))
        else Inr [])
       (\<lambda>channelValues.
     andThen
       (loadWrites sd
          (map (\<lambda>w. \<lparr>wrow_task_id = pw_task_id w, wrow_channel = pw_channel w,
                     wrow_type = pw_type w, wrow_blob = pw_blob w\<rparr>)
             (CYPHER_GET_WRITES s (cr_checkpoint_id checkpointRecord))))
       (\<lambda>pendingWrites'.
          makeCheckpointTuple sd checkpointRecord channelValues pendingWrites'))))"

definition getTuple :: "serde \<Rightarrow> store \<Rightarrow> RunnableConfig \<Rightarrow> error + CheckpointTuple option" where
  "getTuple sd s config' =
     andThen (parseConfig config')
       (\<lambda>pc.
          (let by_id = (case checkpointId pc of None \<Rightarrow> False | Some c \<Rightarrow> c \<noteq> []);
               head = CYPHER_GET_ACTIVE_BRANCH_HEAD s (threadId pc) (checkpointNs pc);
               records =
                 (if by_id then
                    CYPHER_GET_CHECKPOINT_BY_ID s (threadId pc) (checkpointNs pc)
                      (case checkpointId pc of None \<Rightarrow> [] | Some c \<Rightarrow> c)
                  else if head = [] then
                    CYPHER_GET_LATEST_CHECKPOINT s (threadId pc) (checkpointNs pc)
                  else head)
           in case records of
                [] \<Rightarrow> Inr None
              | record # _ \<Rightarrow> andThen (getTuple_record sd s record) (\<lambda>t. Inr (Some t))))"

text \<open>
  \<open>list\<close> is a generator: it yields the tuples one after the other and may throw in
  between. The result is the list of the tuples yielded and the error that ended the
  run, if any.
\<close>

record CheckpointListOptions =
  opt_limit :: "int option"
  opt_before :: "RunnableConfig option"

fun list_yield :: "serde \<Rightarrow> CheckpointRecord list \<Rightarrow> CheckpointTuple list \<times> error option" where
  "list_yield sd [] = ([], None)"
| "list_yield sd (r # rest) =
     (case makeCheckpointTuple sd r [] [] of
        Inl e \<Rightarrow> ([], Some e)
      | Inr t \<Rightarrow> (case list_yield sd rest of (ts, e) \<Rightarrow> (t # ts, e)))"

text \<open>\<open>beforeId\<close>: the checkpoint id of \<open>options.before\<close>, which is parsed as a configuration.\<close>

definition list_before :: "CheckpointListOptions option \<Rightarrow> error + string option" where
  "list_before options =
     (case Option.bind options opt_before of
        None \<Rightarrow> Inr None
      | Some b \<Rightarrow> andThen (parseConfig b) (\<lambda>bc. Inr (checkpointId bc)))"

text \<open>\<open>options?.limit ?? 100\<close>.\<close>

definition list_limit :: "CheckpointListOptions option \<Rightarrow> int" where
  "list_limit options = (case Option.bind options opt_limit of None \<Rightarrow> 100 | Some l \<Rightarrow> l)"

definition list_checkpoints ::
  "serde \<Rightarrow> store \<Rightarrow> RunnableConfig \<Rightarrow> CheckpointListOptions option
     \<Rightarrow> CheckpointTuple list \<times> error option" where
  "list_checkpoints sd s config' options =
     (case parseConfig config' of
        Inl e \<Rightarrow> ([], Some e)
      | Inr pc \<Rightarrow>
          (case list_before options of
             Inl e \<Rightarrow> ([], Some e)
           | Inr beforeId \<Rightarrow>
               (case CYPHER_LIST_CHECKPOINTS s (threadId pc) (checkpointNs pc) beforeId
                       (list_limit options) of
                  Inl e \<Rightarrow> ([], Some (StoreError e))
                | Inr records \<Rightarrow> list_yield sd records)))"

text \<open>\<open>deleteThread\<close>.\<close>

definition deleteThread :: "store \<Rightarrow> string \<Rightarrow> store" where
  "deleteThread s threadId' =
     CYPHER_DELETE_ORPHAN_CHANNEL_STATES (CYPHER_DELETE_THREAD s threadId')"


text \<open>
  The public members that the class \<open>Neo4jSaver\<close> declares, in the order of \<open>saver.ts\<close>.
  The classes it extends add \<open>get\<close> and \<open>getNextVersion\<close>.
\<close>

definition Neo4jSaver_members :: "string list" where
  "Neo4jSaver_members =
     [''fromConnString'', ''close'', ''setup'', ''put'', ''putWrites'', ''getTuple'', ''list'',
      ''deleteThread'', ''get'', ''getNextVersion'']"


section \<open>The specification's words, and sample data\<close>

text \<open>
  The specification's rule for a JSON-safe value: null, boolean, number, string, or a
  sequence or mapping composed recursively of JSON-safe values with only string keys.
  JavaScript has two null values, \<open>null\<close> and \<open>undefined\<close>; both count as null here.
\<close>

fun json_safe :: "jsval \<Rightarrow> bool" where
  "json_safe JNull = True"
| "json_safe JUndefined = True"
| "json_safe (JBool _) = True"
| "json_safe (JNum _) = True"
| "json_safe (JStr _) = True"
| "json_safe (JArr xs) = list_all json_safe xs"
| "json_safe (JObj es) = list_all (\<lambda>kv. json_safe (snd kv)) es"
| "json_safe (JMap es) =
     list_all (\<lambda>kv. (case fst kv of JStr k \<Rightarrow> True | _ \<Rightarrow> False) \<and> json_safe (snd kv)) es"
| "json_safe JFunction = False"

text \<open>The values that hold no \<open>Map\<close>.\<close>

fun plain :: "jsval \<Rightarrow> bool" where
  "plain (JArr xs) = list_all plain xs"
| "plain (JObj es) = list_all (\<lambda>kv. plain (snd kv)) es"
| "plain (JMap es) = False"
| "plain _ = True"

text \<open>
  A serializer for the sample data: it writes a value as its position in a code book
  and throws on a value that is not in the book.
\<close>

fun index_of :: "jsval \<Rightarrow> jsval list \<Rightarrow> nat option" where
  "index_of v [] = None"
| "index_of v (x # xs) = (if x = v then Some 0 else map_option Suc (index_of v xs))"

definition codebook_serde :: "jsval list \<Rightarrow> serde" where
  "codebook_serde book =
     \<lparr>dumpsTyped = (\<lambda>v. case index_of v book of
                           None \<Rightarrow> Inl SerializerError
                         | Some i \<Rightarrow> Inr (''json'', Uint8Array [of_nat i])),
      loadsTyped = (\<lambda>ty bytes. case bytes of
                           [b] \<Rightarrow> if unat b < length book then Inr (book ! unat b)
                                  else Inl SerializerError
                         | _ \<Rightarrow> Inl SerializerError)\<rparr>"

text \<open>
  Three checkpoints. The first has a channel value that is plain data and has a key
  \<open>__serde_type__\<close>; the second has a string and a function as channel values.
\<close>

definition checkpoint_c1 :: jsval where
  "checkpoint_c1 =
     JObj [(''id'', JStr ''c1''),
           (''channel_values'', JObj [(''a'', JObj [(''__serde_type__'', JStr ''x'')])]),
           (''channel_versions'', JObj [(''a'', JNum 1)])]"

definition checkpoint_c2 :: jsval where
  "checkpoint_c2 =
     JObj [(''id'', JStr ''c2''),
           (''channel_values'', JObj [(''a'', JStr ''hello''), (''b'', JFunction)]),
           (''channel_versions'', JObj [(''a'', JNum 1), (''b'', JStr ''7'')])]"

definition checkpoint_c3 :: jsval where
  "checkpoint_c3 =
     JObj [(''id'', JStr ''c3''),
           (''channel_values'', JObj [(''a'', JStr ''bye''), (''b'', JStr ''x'')]),
           (''channel_versions'', JObj [(''a'', JNum 1), (''b'', JNum 8)])]"

definition sample_metadata :: jsval where
  "sample_metadata = JObj [(''source'', JStr ''input'')]"

definition sample_serde :: serde where
  "sample_serde =
     codebook_serde [checkpoint_c1, checkpoint_c2, checkpoint_c3, sample_metadata, JFunction]"

definition thread_t1 :: RunnableConfig where
  "thread_t1 = \<lparr>thread_id = Some ''t1'', checkpoint_ns = None, checkpoint_id = None\<rparr>"

text \<open>
  The store after \<open>setup()\<close> and a \<open>put\<close> of the second sample checkpoint on thread
  \<open>t1\<close>, and the store after a \<open>put\<close> of the third one on top of it.
\<close>

definition store_c2 :: store where
  "store_c2 =
     fst (put sample_serde (empty_store True) thread_t1 checkpoint_c2 sample_metadata JNull ''u1'')"

definition store_c3 :: store where
  "store_c3 =
     fst (put sample_serde store_c2 (thread_t1\<lparr>checkpoint_id := Some ''c2''\<rparr>) checkpoint_c3
            sample_metadata JNull ''u2'')"

text \<open>The store after the query \<open>CYPHER_CREATE_BRANCH\<close> has added the branch \<open>b2\<close> to the thread.\<close>

definition store_b2 :: store where
  "store_b2 =
     (case CYPHER_CREATE_BRANCH store_c2 ''t1'' [] ''b2'' ''dev'' ''c2'' of
        Inr (s, k) \<Rightarrow> s
      | Inl e \<Rightarrow> store_c2)"

text \<open>The ChannelState nodes that the store holds for a channel and a version.\<close>

definition stored_states :: "store \<Rightarrow> string \<Rightarrow> string \<Rightarrow> (node \<times> ChannelState) list" where
  "stored_states s ch ver =
     filter (\<lambda>(n, x). cs_channel x = ch \<and> cs_version x = ver) (ChannelStates s)"

text \<open>The fields \<open>channel_values\<close> and \<open>channel_versions\<close> of a checkpoint, as \<open>put\<close> reads them.\<close>

definition channel_values_of :: "jsval \<Rightarrow> jsval" where
  "channel_values_of cp = coalesce (get_prop cp ''channel_values'') (JObj [])"

definition channel_versions_of :: "jsval \<Rightarrow> jsval" where
  "channel_versions_of cp = coalesce (get_prop cp ''channel_versions'') (JObj [])"

text \<open>The checkpoint ids of a thread, and the checkpoint ids of the tuples that \<open>list\<close> yields.\<close>

definition thread_ids :: "store \<Rightarrow> string \<Rightarrow> string \<Rightarrow> string list" where
  "thread_ids s tid ns = map (\<lambda>(c, ck). cp_checkpoint_id ck) (thread_checkpoints s tid ns)"

definition yielded_ids :: "CheckpointTuple list \<Rightarrow> string list" where
  "yielded_ids ts =
     map (\<lambda>t. case checkpoint_id (t_config t) of Some i \<Rightarrow> i | None \<Rightarrow> []) ts"

text \<open>The ids that are strictly before the cursor, if there is one.\<close>

definition before_cursor :: "string option \<Rightarrow> string \<Rightarrow> bool" where
  "before_cursor beforeId i = (case beforeId of None \<Rightarrow> True | Some b \<Rightarrow> i < b)"

subsection \<open>Consistent stores\<close>

text \<open>
  The uniqueness that the constraints of \<open>setup()\<close> and the \<open>MERGE\<close> of threads
  maintain, and the shape of the relationships that the saver's queries maintain with
  it: no two threads with the same thread id and namespace.
\<close>

definition inv_threads :: "store \<Rightarrow> bool" where
  "inv_threads s =
     distinct (map (\<lambda>(n, t). (th_thread_id t, th_checkpoint_ns t)) (Threads s))"

text \<open>
  No two branches with the same branch id; every branch is the target of at most one
  \<open>HAS_BRANCH\<close> relationship; a thread has at most one \<open>ACTIVE_BRANCH\<close> relationship,
  and it leads to one of its branches.
\<close>

definition inv_branches :: "store \<Rightarrow> bool" where
  "inv_branches s =
     (constraints s \<and>
      distinct (map (\<lambda>(n, b). b_branch_id b) (Branches s)) \<and>
      list_all (\<lambda>(a, b). b < fresh s) (HAS_BRANCH s) \<and>
      distinct (map snd (HAS_BRANCH s)) \<and>
      distinct (map fst (ACTIVE_BRANCH s)) \<and>
      set (ACTIVE_BRANCH s) \<subseteq> set (HAS_BRANCH s))"

text \<open>
  No two checkpoints with the same checkpoint id; every checkpoint is the target of at
  most one \<open>HAS_CHECKPOINT\<close> relationship and the source of at most one \<open>PREVIOUS\<close>
  relationship.
\<close>

definition inv_history :: "store \<Rightarrow> bool" where
  "inv_history s =
     (constraints s \<and>
      distinct (map (\<lambda>(n, c). cp_checkpoint_id c) (Checkpoints s)) \<and>
      list_all (\<lambda>(n, c). n < fresh s) (Checkpoints s) \<and>
      list_all (\<lambda>(a, b). b < fresh s) (HAS_CHECKPOINT s) \<and>
      list_all (\<lambda>(a, b). a < fresh s) (PREVIOUS s) \<and>
      distinct (map snd (HAS_CHECKPOINT s)) \<and>
      distinct (map fst (PREVIOUS s)))"

definition consistent :: "store \<Rightarrow> bool" where
  "consistent s = (inv_threads s \<and> inv_branches s \<and> inv_history s)"

subsection \<open>ChannelStates of a checkpoint\<close>

text \<open>
  The serializer is the caller's. What the saver's own decoding relies on: the data it
  returns is a \<open>Uint8Array\<close>, as its type declares, and \<open>loadsTyped\<close> gives back the
  value from the type and the bytes that \<open>dumpsTyped\<close> returned for it.
\<close>

definition serde_round_trip :: "serde \<Rightarrow> bool" where
  "serde_round_trip sd =
     (\<forall>v ty d. dumpsTyped sd v = Inr (ty, d) \<longrightarrow>
        (\<exists>bytes. d = Uint8Array bytes \<and> loadsTyped sd (JStr ty) bytes = Inr v))"

text \<open>
  A ChannelState agrees with a checkpoint when its version is the version that the
  checkpoint's decoded payload has for its channel, as \<open>put\<close> computes it:
  \<open>String(channelVersions[channel] ?? "")\<close>.
\<close>

definition linked :: "serde \<Rightarrow> Checkpoint \<Rightarrow> ChannelState \<Rightarrow> bool" where
  "linked sd ck x =
     (\<exists>cp. loadCheckpoint sd (cp_type ck) (cp_checkpoint ck) = Inr cp \<and>
        cs_version x = channel_version (channel_versions_of cp) (cs_channel x))"

text \<open>
  Every \<open>HAS_CHANNEL\<close> relationship leads from a checkpoint to a ChannelState that
  agrees with it; ChannelState nodes have distinct numbers, and the relationships are
  between nodes that have been created.
\<close>

definition inv_links :: "serde \<Rightarrow> store \<Rightarrow> bool" where
  "inv_links sd s =
     (list_all (\<lambda>(n, x). n < fresh s) (ChannelStates s) \<and>
      distinct (map fst (ChannelStates s)) \<and>
      list_all (\<lambda>(a, b). a < fresh s \<and> b < fresh s) (HAS_CHANNEL s) \<and>
      (\<forall>(c, n) \<in> set (HAS_CHANNEL s). \<forall>ck x.
          (c, ck) \<in> set (Checkpoints s) \<and> (n, x) \<in> set (ChannelStates s) \<longrightarrow> linked sd ck x))"

subsection \<open>Reachable stores\<close>

text \<open>
  The stores that the operations on the store produce from the empty store on which
  \<open>setup()\<close> has installed the constraints: the three methods of the saver that write
  (whether they complete or fail), and the three queries that change branches. These
  queries are exported by the package, but no method of the saver runs them: a caller
  runs each in a transaction of its own.
\<close>

inductive reachable :: "serde \<Rightarrow> store \<Rightarrow> bool" for sd :: serde where
  start: "reachable sd (empty_store True)"
| put: "reachable sd s \<Longrightarrow> reachable sd (fst (put sd s cfg cp md nv uuid))"
| putWrites: "reachable sd s \<Longrightarrow> reachable sd (fst (putWrites sd s cfg writes task))"
| deleteThread: "reachable sd s \<Longrightarrow> reachable sd (deleteThread s tid)"
| createBranch:
    "reachable sd s \<Longrightarrow> CYPHER_CREATE_BRANCH s tid ns bid name fork = Inr (s', k) \<Longrightarrow>
       reachable sd s'"
| setActiveBranch: "reachable sd s \<Longrightarrow> reachable sd (fst (CYPHER_SET_ACTIVE_BRANCH s tid ns bid))"
| deleteBranch: "reachable sd s \<Longrightarrow> reachable sd (CYPHER_DELETE_BRANCH s bid)"

section \<open>Properties\<close>

subsection \<open>Hexadecimal text\<close>

declare nat_toString.simps [simp del]

lemma digit_cases: "d < 16 \<Longrightarrow> d \<in> {0,1,2,3,4,5,6,7,8,9,10,11,12,13,14,15::nat}"
  by simp presburger

lemma hex_value_digit_char: "d < 16 \<Longrightarrow> hex_value (digit_char d) = Some d"
  using digit_cases [of d] by (auto simp: hex_value_def digit_char_def)

lemma digit_char_plain:
  "d < 16 \<Longrightarrow> \<not> js_whitespace (digit_char d) \<and> digit_char d \<noteq> CHR ''-'' \<and>
     digit_char d \<noteq> CHR ''+'' \<and> digit_char d \<noteq> CHR ''x'' \<and> digit_char d \<noteq> CHR ''X''"
  using digit_cases [of d] by (auto simp: js_whitespace_def digit_char_def)

lemma parseInt16_digits:
  assumes "h < 16" "l < 16"
  shows "parseInt16 [digit_char h, digit_char l] = Some (int (16 * h + l))"
  using assms digit_char_plain [of h] digit_char_plain [of l]
  by (simp add: parseInt16_def hex_value_digit_char)

lemma byte_text:
  "padStart 2 CHR ''0'' (nat_toString 16 (unat (b :: byte))) =
     [digit_char (unat b div 16), digit_char (unat b mod 16)]"
proof -
  have lt: "unat b < 256" using unsigned_less [of b, where ?'a = nat] by simp
  show ?thesis
  proof (cases "unat b < 16")
    case True
    then show ?thesis
      by (simp add: nat_toString.simps [of 16 "unat b"] padStart_def digit_char_def)
  next
    case False
    with lt have "unat b div 16 < 16" by simp
    with False show ?thesis
      by (simp add: nat_toString.simps [of 16 "unat b"] nat_toString.simps [of 16 "unat b div 16"]
            padStart_def)
  qed
qed

lemma hexToBytes_bytesToHex: "hexToBytes (bytesToHex bytes) = bytes"
proof (induction bytes)
  case Nil
  show ?case by (simp add: bytesToHex_def)
next
  case (Cons b bytes)
  have lt: "unat b < 256" using unsigned_less [of b, where ?'a = nat] by simp
  then have h: "unat b div 16 < 16" and l: "unat b mod 16 < 16" by simp_all
  have "toUint8 (parseInt16 [digit_char (unat b div 16), digit_char (unat b mod 16)]) = b"
    using parseInt16_digits [OF h l] by (simp add: toUint8_def)
  with Cons show ?case
    using byte_text [of b] by (simp add: bytesToHex_def)
qed

subsection \<open>The structure of \<open>put\<close>\<close>

lemma andThen_simps [simp]:
  "andThen (Inl e) f = Inl e" "andThen (Inr x) f = f x"
  by (simp_all add: andThen_def)

lemma put_disj:
  "(\<exists>e. put sd s cfg cp md nv u = (s, Inl e)) \<or>
   (\<exists>pc ty mty sc sm cid s1.
      parseConfig cfg = Inr pc \<and> as_string (get_prop cp ''id'') = Inr cid \<and>
      dumpCheckpoint sd cp = Inr (ty, Some sc) \<and> dumpMetadata sd md = Inr (mty, Some sm) \<and>
      CYPHER_UPSERT_CHECKPOINT_SIMPLE s (threadId pc) (checkpointNs pc) cid ty sc sm = Inr s1 \<and>
      put sd s cfg cp md nv u = put_steps sd s1 pc cid cp u)"
  by (simp add: put_def split: sum.split option.split prod.split)

lemma put_cases:
  obtains (fail) e where "put sd s cfg cp md nv u = (s, Inl e)"
  | (run) pc ty mty sc sm cid s1 where
      "parseConfig cfg = Inr pc" "as_string (get_prop cp ''id'') = Inr cid"
      "dumpCheckpoint sd cp = Inr (ty, Some sc)" "dumpMetadata sd md = Inr (mty, Some sm)"
      "CYPHER_UPSERT_CHECKPOINT_SIMPLE s (threadId pc) (checkpointNs pc) cid ty sc sm = Inr s1"
      "put sd s cfg cp md nv u = put_steps sd s1 pc cid cp u"
  using put_disj [of sd s cfg cp md nv u] by blast

lemma put_steps_disj:
  "(\<exists>e. dumpBlobs sd (coalesce (get_prop cp ''channel_values'') (JObj []))
         (coalesce (get_prop cp ''channel_versions'') (JObj [])) = Inl e \<and>
        put_steps sd s1 pc cid cp u = (put_parent s1 pc cid, Inl e)) \<or>
   (\<exists>blobs s3. dumpBlobs sd (coalesce (get_prop cp ''channel_values'') (JObj []))
         (coalesce (get_prop cp ''channel_versions'') (JObj [])) = Inr blobs \<and>
      ((\<exists>e. put_blobs (put_parent s1 pc cid) cid blobs = (s3, Some e) \<and>
            put_steps sd s1 pc cid cp u = (s3, Inl e)) \<or>
       (put_blobs (put_parent s1 pc cid) cid blobs = (s3, None) \<and>
        (\<exists>s4. (\<exists>e. put_branch s3 (threadId pc) (checkpointNs pc) cid u = (s4, Some e) \<and>
                    put_steps sd s1 pc cid cp u = (s4, Inl e)) \<or>
               (put_branch s3 (threadId pc) (checkpointNs pc) cid u = (s4, None) \<and>
                put_steps sd s1 pc cid cp u =
                  (s4, Inr \<lparr>thread_id = Some (threadId pc),
                            checkpoint_ns = Some (checkpointNs pc),
                            checkpoint_id = Some cid\<rparr>))))))"
  by (simp add: put_steps_def put_parent_def Let_def split: sum.split option.split prod.split)

lemma put_steps_cases:
  obtains (dump_fail) e where
      "dumpBlobs sd (coalesce (get_prop cp ''channel_values'') (JObj []))
         (coalesce (get_prop cp ''channel_versions'') (JObj [])) = Inl e"
      "put_steps sd s1 pc cid cp u = (put_parent s1 pc cid, Inl e)"
  | (blob_fail) blobs s3 e where
      "dumpBlobs sd (coalesce (get_prop cp ''channel_values'') (JObj []))
         (coalesce (get_prop cp ''channel_versions'') (JObj [])) = Inr blobs"
      "put_blobs (put_parent s1 pc cid) cid blobs = (s3, Some e)"
      "put_steps sd s1 pc cid cp u = (s3, Inl e)"
  | (branch_fail) blobs s3 s4 e where
      "dumpBlobs sd (coalesce (get_prop cp ''channel_values'') (JObj []))
         (coalesce (get_prop cp ''channel_versions'') (JObj [])) = Inr blobs"
      "put_blobs (put_parent s1 pc cid) cid blobs = (s3, None)"
      "put_branch s3 (threadId pc) (checkpointNs pc) cid u = (s4, Some e)"
      "put_steps sd s1 pc cid cp u = (s4, Inl e)"
  | (complete) blobs s3 s4 where
      "dumpBlobs sd (coalesce (get_prop cp ''channel_values'') (JObj []))
         (coalesce (get_prop cp ''channel_versions'') (JObj [])) = Inr blobs"
      "put_blobs (put_parent s1 pc cid) cid blobs = (s3, None)"
      "put_branch s3 (threadId pc) (checkpointNs pc) cid u = (s4, None)"
      "put_steps sd s1 pc cid cp u =
         (s4, Inr \<lparr>thread_id = Some (threadId pc), checkpoint_ns = Some (checkpointNs pc),
                   checkpoint_id = Some cid\<rparr>)"
  using put_steps_disj [of sd cp s1 pc cid u] by blast



subsection \<open>What each query leaves alone\<close>

lemma upsert_checkpoint_frame:
  assumes "CYPHER_UPSERT_CHECKPOINT_SIMPLE s tid ns cid ty cp md = Inr s'"
  shows "constraints s' = constraints s" "ChannelStates s' = ChannelStates s"
    "PendingWrites s' = PendingWrites s" "Branches s' = Branches s"
    "PREVIOUS s' = PREVIOUS s" "HAS_CHANNEL s' = HAS_CHANNEL s" "HAS_WRITE s' = HAS_WRITE s"
    "HAS_BRANCH s' = HAS_BRANCH s" "ACTIVE_BRANCH s' = ACTIVE_BRANCH s" "HEAD s' = HEAD s"
    "ON_BRANCH s' = ON_BRANCH s"
  using assms
  by (auto simp: CYPHER_UPSERT_CHECKPOINT_SIMPLE_def Let_def split: if_splits)

lemma link_parent_frame [simp]:
  "constraints (CYPHER_LINK_PARENT_CHECKPOINT s c p) = constraints s"
  "fresh (CYPHER_LINK_PARENT_CHECKPOINT s c p) = fresh s"
  "Threads (CYPHER_LINK_PARENT_CHECKPOINT s c p) = Threads s"
  "Checkpoints (CYPHER_LINK_PARENT_CHECKPOINT s c p) = Checkpoints s"
  "ChannelStates (CYPHER_LINK_PARENT_CHECKPOINT s c p) = ChannelStates s"
  "PendingWrites (CYPHER_LINK_PARENT_CHECKPOINT s c p) = PendingWrites s"
  "Branches (CYPHER_LINK_PARENT_CHECKPOINT s c p) = Branches s"
  "HAS_CHECKPOINT (CYPHER_LINK_PARENT_CHECKPOINT s c p) = HAS_CHECKPOINT s"
  "HAS_CHANNEL (CYPHER_LINK_PARENT_CHECKPOINT s c p) = HAS_CHANNEL s"
  "HAS_WRITE (CYPHER_LINK_PARENT_CHECKPOINT s c p) = HAS_WRITE s"
  "HAS_BRANCH (CYPHER_LINK_PARENT_CHECKPOINT s c p) = HAS_BRANCH s"
  "ACTIVE_BRANCH (CYPHER_LINK_PARENT_CHECKPOINT s c p) = ACTIVE_BRANCH s"
  "HEAD (CYPHER_LINK_PARENT_CHECKPOINT s c p) = HEAD s"
  "ON_BRANCH (CYPHER_LINK_PARENT_CHECKPOINT s c p) = ON_BRANCH s"
  by (simp_all add: CYPHER_LINK_PARENT_CHECKPOINT_def)

lemma put_parent_frame [simp]:
  "constraints (put_parent s pc c) = constraints s"
  "fresh (put_parent s pc c) = fresh s"
  "Threads (put_parent s pc c) = Threads s"
  "Checkpoints (put_parent s pc c) = Checkpoints s"
  "ChannelStates (put_parent s pc c) = ChannelStates s"
  "PendingWrites (put_parent s pc c) = PendingWrites s"
  "Branches (put_parent s pc c) = Branches s"
  "HAS_CHECKPOINT (put_parent s pc c) = HAS_CHECKPOINT s"
  "HAS_CHANNEL (put_parent s pc c) = HAS_CHANNEL s"
  "HAS_WRITE (put_parent s pc c) = HAS_WRITE s"
  "HAS_BRANCH (put_parent s pc c) = HAS_BRANCH s"
  "ACTIVE_BRANCH (put_parent s pc c) = ACTIVE_BRANCH s"
  "HEAD (put_parent s pc c) = HEAD s"
  "ON_BRANCH (put_parent s pc c) = ON_BRANCH s"
  by (simp_all add: put_parent_def split: option.split)

lemma upsert_channel_state_frame [simp]:
  "constraints (CYPHER_UPSERT_CHANNEL_STATE s c ch ver ty b) = constraints s"
  "Threads (CYPHER_UPSERT_CHANNEL_STATE s c ch ver ty b) = Threads s"
  "Checkpoints (CYPHER_UPSERT_CHANNEL_STATE s c ch ver ty b) = Checkpoints s"
  "PendingWrites (CYPHER_UPSERT_CHANNEL_STATE s c ch ver ty b) = PendingWrites s"
  "Branches (CYPHER_UPSERT_CHANNEL_STATE s c ch ver ty b) = Branches s"
  "HAS_CHECKPOINT (CYPHER_UPSERT_CHANNEL_STATE s c ch ver ty b) = HAS_CHECKPOINT s"
  "PREVIOUS (CYPHER_UPSERT_CHANNEL_STATE s c ch ver ty b) = PREVIOUS s"
  "HAS_WRITE (CYPHER_UPSERT_CHANNEL_STATE s c ch ver ty b) = HAS_WRITE s"
  "HAS_BRANCH (CYPHER_UPSERT_CHANNEL_STATE s c ch ver ty b) = HAS_BRANCH s"
  "ACTIVE_BRANCH (CYPHER_UPSERT_CHANNEL_STATE s c ch ver ty b) = ACTIVE_BRANCH s"
  "HEAD (CYPHER_UPSERT_CHANNEL_STATE s c ch ver ty b) = HEAD s"
  "ON_BRANCH (CYPHER_UPSERT_CHANNEL_STATE s c ch ver ty b) = ON_BRANCH s"
  by (simp_all add: CYPHER_UPSERT_CHANNEL_STATE_def Let_def)

lemma create_main_branch_frame:
  assumes "CYPHER_CREATE_MAIN_BRANCH s tid ns bid = Inr s'"
  shows "constraints s' = constraints s" "Threads s' = Threads s"
    "Checkpoints s' = Checkpoints s" "ChannelStates s' = ChannelStates s"
    "PendingWrites s' = PendingWrites s" "HAS_CHECKPOINT s' = HAS_CHECKPOINT s"
    "PREVIOUS s' = PREVIOUS s" "HAS_CHANNEL s' = HAS_CHANNEL s" "HAS_WRITE s' = HAS_WRITE s"
    "HEAD s' = HEAD s" "ON_BRANCH s' = ON_BRANCH s"
  using assms
  by (auto simp: CYPHER_CREATE_MAIN_BRANCH_def Let_def split: if_splits)

lemma update_branch_head_frame [simp]:
  "constraints (CYPHER_UPDATE_BRANCH_HEAD s tid ns c) = constraints s"
  "fresh (CYPHER_UPDATE_BRANCH_HEAD s tid ns c) = fresh s"
  "Threads (CYPHER_UPDATE_BRANCH_HEAD s tid ns c) = Threads s"
  "Checkpoints (CYPHER_UPDATE_BRANCH_HEAD s tid ns c) = Checkpoints s"
  "ChannelStates (CYPHER_UPDATE_BRANCH_HEAD s tid ns c) = ChannelStates s"
  "PendingWrites (CYPHER_UPDATE_BRANCH_HEAD s tid ns c) = PendingWrites s"
  "Branches (CYPHER_UPDATE_BRANCH_HEAD s tid ns c) = Branches s"
  "HAS_CHECKPOINT (CYPHER_UPDATE_BRANCH_HEAD s tid ns c) = HAS_CHECKPOINT s"
  "PREVIOUS (CYPHER_UPDATE_BRANCH_HEAD s tid ns c) = PREVIOUS s"
  "HAS_CHANNEL (CYPHER_UPDATE_BRANCH_HEAD s tid ns c) = HAS_CHANNEL s"
  "HAS_WRITE (CYPHER_UPDATE_BRANCH_HEAD s tid ns c) = HAS_WRITE s"
  "HAS_BRANCH (CYPHER_UPDATE_BRANCH_HEAD s tid ns c) = HAS_BRANCH s"
  "ACTIVE_BRANCH (CYPHER_UPDATE_BRANCH_HEAD s tid ns c) = ACTIVE_BRANCH s"
  by (simp_all add: CYPHER_UPDATE_BRANCH_HEAD_def Let_def)

subsection \<open>A property that every query of \<open>put\<close> keeps is kept by \<open>put\<close>\<close>

lemma put_blobs_keeps:
  assumes "\<And>s c ch ver ty b. P s \<Longrightarrow> P (CYPHER_UPSERT_CHANNEL_STATE s c ch ver ty b)"
  shows "P s \<Longrightarrow> P (fst (put_blobs s cid blobs))"
  by (induction blobs arbitrary: s) (auto simp: assms split: option.split)

lemma put_branch_keeps:
  assumes "P s"
    and "\<And>s tid ns bid s'. P s \<Longrightarrow> CYPHER_CREATE_MAIN_BRANCH s tid ns bid = Inr s' \<Longrightarrow> P s'"
    and "\<And>s tid ns c. P s \<Longrightarrow> P (CYPHER_UPDATE_BRANCH_HEAD s tid ns c)"
  shows "P (fst (put_branch s tid ns cid u))"
  using assms by (auto simp: put_branch_def split: sum.split)

lemma put_keeps:
  assumes init: "P s"
    and cp: "\<And>s tid ns cid ty cp md s'.
          P s \<Longrightarrow> CYPHER_UPSERT_CHECKPOINT_SIMPLE s tid ns cid ty cp md = Inr s' \<Longrightarrow> P s'"
    and lp: "\<And>s c p. P s \<Longrightarrow> P (CYPHER_LINK_PARENT_CHECKPOINT s c p)"
    and cs: "\<And>s c ch ver ty b. P s \<Longrightarrow> P (CYPHER_UPSERT_CHANNEL_STATE s c ch ver ty b)"
    and mb: "\<And>s tid ns bid s'. P s \<Longrightarrow> CYPHER_CREATE_MAIN_BRANCH s tid ns bid = Inr s' \<Longrightarrow> P s'"
    and hd: "\<And>s tid ns c. P s \<Longrightarrow> P (CYPHER_UPDATE_BRANCH_HEAD s tid ns c)"
  shows "P (fst (put sd s cfg cp md nv u))"
proof (cases rule: put_cases [of sd s cfg cp md nv u])
  case (fail e)
  then show ?thesis using init by simp
next
  case (run pc ty mty sc sm cid s1)
  have p1: "P s1" using cp [OF init run(5)] .
  have p2: "P (put_parent s1 pc cid)"
    using p1 lp by (simp add: put_parent_def split: option.split)
  have p3: "P (fst (put_blobs (put_parent s1 pc cid) cid blobs))" for blobs
    using put_blobs_keeps [where P = P, OF cs p2] .
  have p4: "P (fst (put_branch (fst (put_blobs (put_parent s1 pc cid) cid blobs)) tid ns cid u))"
    for blobs tid ns
    using put_branch_keeps [where P = P, OF p3 mb hd] .
  show ?thesis
  proof (cases rule: put_steps_cases [of sd cp s1 pc cid u])
    case (dump_fail e)
    then show ?thesis using run(6) p2 by simp
  next
    case (blob_fail blobs s3 e)
    then show ?thesis using run(6) p3 [of blobs] by simp
  next
    case (branch_fail blobs s3 s4 e)
    then show ?thesis using run(6) p4 [of blobs "threadId pc" "checkpointNs pc"] by simp
  next
    case (complete blobs s3 s4)
    then show ?thesis using run(6) p4 [of blobs "threadId pc" "checkpointNs pc"] by simp
  qed
qed


lemma put_steps_keeps:
  assumes init: "P s1"
    and lp: "\<And>s c p. P s \<Longrightarrow> P (CYPHER_LINK_PARENT_CHECKPOINT s c p)"
    and cs: "\<And>s c ch ver ty b. P s \<Longrightarrow> P (CYPHER_UPSERT_CHANNEL_STATE s c ch ver ty b)"
    and mb: "\<And>s tid ns bid s'. P s \<Longrightarrow> CYPHER_CREATE_MAIN_BRANCH s tid ns bid = Inr s' \<Longrightarrow> P s'"
    and hd: "\<And>s tid ns c. P s \<Longrightarrow> P (CYPHER_UPDATE_BRANCH_HEAD s tid ns c)"
  shows "P (fst (put_steps sd s1 pc cid cp u))"
proof -
  have p2: "P (put_parent s1 pc cid)"
    using init lp by (simp add: put_parent_def split: option.split)
  have p3: "P (fst (put_blobs (put_parent s1 pc cid) cid blobs))" for blobs
    using put_blobs_keeps [where P = P, OF cs p2] .
  have p4: "P (fst (put_branch (fst (put_blobs (put_parent s1 pc cid) cid blobs)) tid ns cid u))"
    for blobs tid ns
    using put_branch_keeps [where P = P, OF p3 mb hd] .
  show ?thesis
  proof (cases rule: put_steps_cases [of sd cp s1 pc cid u])
    case (dump_fail e)
    then show ?thesis using p2 by simp
  next
    case (blob_fail blobs s3 e)
    then show ?thesis using p3 [of blobs] by simp
  next
    case (branch_fail blobs s3 s4 e)
    then show ?thesis using p4 [of blobs "threadId pc" "checkpointNs pc"] by simp
  next
    case (complete blobs s3 s4)
    then show ?thesis using p4 [of blobs "threadId pc" "checkpointNs pc"] by simp
  qed
qed

lemma put_steps_Checkpoints [simp]:
  "Checkpoints (fst (put_steps sd s1 pc cid cp u)) = Checkpoints s1"
  by (rule put_steps_keeps) (simp_all add: create_main_branch_frame)

lemma put_steps_constraints [simp]:
  "constraints (fst (put_steps sd s1 pc cid cp u)) = constraints s1"
  by (rule put_steps_keeps) (simp_all add: create_main_branch_frame)

lemma put_steps_Threads [simp]:
  "Threads (fst (put_steps sd s1 pc cid cp u)) = Threads s1"
  by (rule put_steps_keeps) (simp_all add: create_main_branch_frame)

lemma upsert_checkpoint_matches:
  assumes "CYPHER_UPSERT_CHECKPOINT_SIMPLE s tid ns cid ty cp md = Inr s'"
  shows "match_checkpoint s' cid \<noteq> []"
    and "p \<noteq> cid \<Longrightarrow> match_checkpoint s' p = match_checkpoint s p"
    and "match_thread s' tid ns \<noteq> []"
  using assms
  by (auto simp: CYPHER_UPSERT_CHECKPOINT_SIMPLE_def Let_def match_checkpoint_def
        match_thread_def new_nodes_def split: if_splits)

lemma concat_map_Nil [simp]: "concat (map (\<lambda>x. []) xs) = []"
  by (induction xs) simp_all

lemma link_parent_unresolved:
  "match_checkpoint s p = [] \<Longrightarrow> CYPHER_LINK_PARENT_CHECKPOINT s c p = s"
  by (simp add: CYPHER_LINK_PARENT_CHECKPOINT_def)

lemma parseConfig_parent:
  "parseConfig (cfg\<lparr>checkpoint_id := x\<rparr>) =
     (case parseConfig cfg of Inl e \<Rightarrow> Inl e | Inr pc \<Rightarrow> Inr (pc\<lparr>checkpointId := x\<rparr>))"
  by (simp add: parseConfig_def split: option.split)

lemma put_steps_no_parent:
  assumes "put_parent s1 pc cid = s1"
  shows "put_steps sd s1 pc cid cp u = put_steps sd s1 (pc\<lparr>checkpointId := None\<rparr>) cid cp u"
proof -
  have "put_parent s1 (pc\<lparr>checkpointId := None\<rparr>) cid = s1"
    by (simp add: put_parent_def)
  with assms show ?thesis
    by (simp add: put_steps_def split: sum.split prod.split option.split)
qed

subsection \<open>The blobs of a checkpoint\<close>

lemma dumpBlob_fields:
  "dumpBlob sd vers ch v = Inr b \<Longrightarrow>
     bd_channel b = ch \<and> bd_version b = channel_version vers ch"
  by (auto simp: dumpBlob_def Let_def andThen_def split: if_splits sum.splits serde_data.splits)

lemma dumpBlobs_loop_fields:
  "dumpBlobs_loop sd vers es = Inr blobs \<Longrightarrow>
     map bd_channel blobs = map fst es \<and>
     (\<forall>b\<in>set blobs. bd_version b = channel_version vers (bd_channel b))"
proof (induction es arbitrary: blobs)
  case Nil
  then show ?case by simp
next
  case (Cons e es)
  obtain ch v where e: "e = (ch, v)" by (cases e)
  from Cons.prems obtain b bs where
    b: "dumpBlob sd vers ch v = Inr b" and bs: "dumpBlobs_loop sd vers es = Inr bs"
    and blobs: "blobs = b # bs"
    by (auto simp: e andThen_def split: sum.splits)
  show ?case
    using Cons.IH [OF bs] dumpBlob_fields [OF b] by (simp add: blobs e)
qed

lemma upsert_channel_state_new:
  "x \<in> set (ChannelStates (CYPHER_UPSERT_CHANNEL_STATE s c ch ver ty b)) \<Longrightarrow>
     x \<in> set (ChannelStates s) \<or> (cs_channel (snd x) = ch \<and> cs_version (snd x) = ver)"
  by (auto simp: CYPHER_UPSERT_CHANNEL_STATE_def Let_def split: if_splits)

lemma put_blobs_new:
  "x \<in> set (ChannelStates (fst (put_blobs s cid blobs))) \<Longrightarrow>
     x \<in> set (ChannelStates s) \<or>
     (\<exists>b\<in>set blobs. cs_channel (snd x) = bd_channel b \<and> cs_version (snd x) = bd_version b)"
proof (induction blobs arbitrary: s)
  case Nil
  then show ?case by simp
next
  case (Cons b blobs)
  show ?case
  proof (cases "bd_blob b")
    case None
    with Cons.prems show ?thesis by simp
  next
    case (Some j)
    with Cons.prems Cons.IH [of "CYPHER_UPSERT_CHANNEL_STATE s cid (bd_channel b) (bd_version b) (bd_type b) j"]
    show ?thesis
      using upsert_channel_state_new by fastforce
  qed
qed

lemma put_branch_ChannelStates [simp]:
  "ChannelStates (fst (put_branch s tid ns cid u)) = ChannelStates s"
  by (auto simp: put_branch_def create_main_branch_frame split: sum.split)

lemma put_steps_new:
  assumes "x \<in> set (ChannelStates (fst (put_steps sd s1 pc cid cp u)))"
  shows "x \<in> set (ChannelStates s1) \<or>
     cs_version (snd x) =
       channel_version (coalesce (get_prop cp ''channel_versions'') (JObj [])) (cs_channel (snd x))"
proof -
  have blobs: "x \<in> set (ChannelStates s1) \<or>
     cs_version (snd x) =
       channel_version (coalesce (get_prop cp ''channel_versions'') (JObj [])) (cs_channel (snd x))"
    if d: "dumpBlobs sd (coalesce (get_prop cp ''channel_values'') (JObj []))
         (coalesce (get_prop cp ''channel_versions'') (JObj [])) = Inr blobs"
      and x: "x \<in> set (ChannelStates (fst (put_blobs (put_parent s1 pc cid) cid blobs)))"
    for blobs
    using put_blobs_new [OF x] dumpBlobs_loop_fields [OF d [unfolded dumpBlobs_def]]
    by auto
  show ?thesis
  proof (cases rule: put_steps_cases [of sd cp s1 pc cid u])
    case (dump_fail e)
    then show ?thesis using assms by simp
  next
    case (blob_fail blobs s3 e)
    then show ?thesis using assms blobs [of blobs] by simp
  next
    case (branch_fail blobs s3 s4 e)
    have "ChannelStates s4 = ChannelStates s3"
      using put_branch_ChannelStates [of s3 "threadId pc" "checkpointNs pc" cid u]
      by (simp add: branch_fail(3))
    then show ?thesis using assms blobs [of blobs] branch_fail by simp
  next
    case (complete blobs s3 s4)
    have "ChannelStates s4 = ChannelStates s3"
      using put_branch_ChannelStates [of s3 "threadId pc" "checkpointNs pc" cid u]
      by (simp add: complete(3))
    then show ?thesis using assms blobs [of blobs] complete by simp
  qed
qed

lemma put_new_versions:
  assumes "x \<in> set (ChannelStates (fst (put sd s cfg cp md nv u)))"
  shows "x \<in> set (ChannelStates s) \<or>
     cs_version (snd x) =
       channel_version (coalesce (get_prop cp ''channel_versions'') (JObj [])) (cs_channel (snd x))"
proof (cases rule: put_cases [of sd s cfg cp md nv u])
  case (fail e)
  then show ?thesis using assms by simp
next
  case (run pc ty mty sc sm cid s1)
  then show ?thesis
    using assms put_steps_new [of x sd s1 pc cid cp u] upsert_checkpoint_frame(2) [OF run(5)]
    by simp
qed


subsection \<open>ChannelState nodes\<close>

lemma match_channel_state_stored:
  "match_channel_state s ch ver = map fst (stored_states s ch ver)"
  by (simp add: match_channel_state_def stored_states_def)

lemma stored_upsert:
  "stored_states (CYPHER_UPSERT_CHANNEL_STATE s cid ch ver ty b) ch' ver' =
     (if ch' = ch \<and> ver' = ver \<and> match_checkpoint s cid \<noteq> [] \<and> stored_states s ch ver = []
      then [(fresh s, \<lparr>cs_channel = ch, cs_version = ver, cs_type = ty, cs_blob = b\<rparr>)]
      else stored_states s ch' ver')"
  by (auto simp: CYPHER_UPSERT_CHANNEL_STATE_def Let_def match_channel_state_stored
        stored_states_def)

lemma upsert_edges_mono:
  "set (HAS_CHANNEL s) \<subseteq> set (HAS_CHANNEL (CYPHER_UPSERT_CHANNEL_STATE s cid ch ver ty b))"
  by (auto simp: CYPHER_UPSERT_CHANNEL_STATE_def Let_def)

lemma upsert_links:
  assumes "c \<in> set (match_checkpoint s cid)"
    and "(n, x) \<in> set (stored_states (CYPHER_UPSERT_CHANNEL_STATE s cid ch ver ty b) ch ver)"
  shows "(c, n) \<in> set (HAS_CHANNEL (CYPHER_UPSERT_CHANNEL_STATE s cid ch ver ty b))"
proof -
  from assms(1) have rows: "match_checkpoint s cid \<noteq> []" by auto
  show ?thesis
  proof (cases "stored_states s ch ver = []")
    case True
    with assms(2) rows have "n = fresh s"
      by (simp add: stored_upsert)
    with assms(1) rows True show ?thesis
      by (simp add: CYPHER_UPSERT_CHANNEL_STATE_def Let_def match_channel_state_stored)
  next
    case False
    with assms(2) have "(n, x) \<in> set (stored_states s ch ver)"
      by (simp add: stored_upsert)
    then have "n \<in> set (match_channel_state s ch ver)"
      by (force simp: match_channel_state_stored)
    with assms(1) rows False show ?thesis
      by (auto simp: CYPHER_UPSERT_CHANNEL_STATE_def Let_def match_channel_state_stored)
  qed
qed

lemma match_checkpoint_cong:
  "Checkpoints s' = Checkpoints s \<Longrightarrow> match_checkpoint s' cid = match_checkpoint s cid"
  by (simp add: match_checkpoint_def)

lemma put_blobs_Checkpoints [simp]:
  "Checkpoints (fst (put_blobs s cid blobs)) = Checkpoints s"
  by (induction blobs arbitrary: s) (simp_all split: option.split)

lemma put_blobs_stored_keep:
  "stored_states s ch ver \<noteq> [] \<Longrightarrow>
     stored_states (fst (put_blobs s cid blobs)) ch ver = stored_states s ch ver"
  by (induction blobs arbitrary: s) (auto simp: stored_upsert split: option.split)

lemma put_blobs_edges_mono:
  "set (HAS_CHANNEL s) \<subseteq> set (HAS_CHANNEL (fst (put_blobs s cid blobs)))"
proof (induction blobs arbitrary: s)
  case Nil
  show ?case by simp
next
  case (Cons b blobs)
  show ?case
  proof (cases "bd_blob b")
    case None
    then show ?thesis by simp
  next
    case (Some j)
    then show ?thesis
      using Cons [of "CYPHER_UPSERT_CHANNEL_STATE s cid (bd_channel b) (bd_version b) (bd_type b) j"]
        upsert_edges_mono [of s cid "bd_channel b" "bd_version b" "bd_type b" j]
      by auto
  qed
qed

lemma put_blobs_post:
  assumes "put_blobs s cid blobs = (s', None)" and "b \<in> set blobs"
    and "match_checkpoint s cid \<noteq> []"
  shows "stored_states s' (bd_channel b) (bd_version b) \<noteq> [] \<and>
     (\<forall>(n, x) \<in> set (stored_states s' (bd_channel b) (bd_version b)).
        \<forall>c \<in> set (match_checkpoint s cid). (c, n) \<in> set (HAS_CHANNEL s'))"
  using assms
proof (induction blobs arbitrary: s)
  case Nil
  then show ?case by simp
next
  case (Cons b0 blobs)
  from Cons.prems(1) obtain j where j: "bd_blob b0 = Some j"
    by (cases "bd_blob b0") auto
  define s1 where "s1 = CYPHER_UPSERT_CHANNEL_STATE s cid (bd_channel b0) (bd_version b0) (bd_type b0) j"
  have rest: "put_blobs s1 cid blobs = (s', None)"
    using Cons.prems(1) j by (simp add: s1_def)
  have rows: "match_checkpoint s1 cid = match_checkpoint s cid"
    by (simp add: s1_def match_checkpoint_def)
  show ?case
  proof (cases "b \<in> set blobs")
    case True
    have "match_checkpoint s1 cid \<noteq> []"
      using rows Cons.prems(3) by simp
    from Cons.IH [OF rest True this] show ?thesis
      unfolding rows .
  next
    case False
    with Cons.prems(2) have b: "b = b0" by simp
    have ne: "stored_states s1 (bd_channel b0) (bd_version b0) \<noteq> []"
      using Cons.prems(3) by (simp add: s1_def stored_upsert)
    have keep: "stored_states s' (bd_channel b0) (bd_version b0) =
        stored_states s1 (bd_channel b0) (bd_version b0)"
      using put_blobs_stored_keep [OF ne, of cid blobs] rest by simp
    have mono: "set (HAS_CHANNEL s1) \<subseteq> set (HAS_CHANNEL s')"
      using put_blobs_edges_mono [of s1 cid blobs] rest by simp
    have link: "(c, n) \<in> set (HAS_CHANNEL s')"
      if "c \<in> set (match_checkpoint s cid)"
        and "(n, x) \<in> set (stored_states s1 (bd_channel b0) (bd_version b0))" for c n x
    proof -
      have "(c, n) \<in> set (HAS_CHANNEL s1)"
        unfolding s1_def by (rule upsert_links [OF that(1)]) (use that(2) in \<open>simp add: s1_def\<close>)
      with mono show ?thesis by blast
    qed
    show ?thesis
      unfolding b keep using ne link by blast
  qed
qed

lemma put_blobs_first:
  assumes "put_blobs s cid blobs = (s', None)" and "b \<in> set blobs"
    and "match_checkpoint s cid \<noteq> []"
    and "stored_states s (bd_channel b) (bd_version b) = []"
    and "distinct (map bd_channel blobs)" and "bd_blob b = Some j"
  shows "\<exists>n. stored_states s' (bd_channel b) (bd_version b) =
           [(n, \<lparr>cs_channel = bd_channel b, cs_version = bd_version b,
                 cs_type = bd_type b, cs_blob = j\<rparr>)]"
  using assms(1-5)
proof (induction blobs arbitrary: s)
  case Nil
  then show ?case by simp
next
  case (Cons b0 blobs)
  from Cons.prems(1) obtain j0 where j0: "bd_blob b0 = Some j0"
    by (cases "bd_blob b0") auto
  define s1 where "s1 = CYPHER_UPSERT_CHANNEL_STATE s cid (bd_channel b0) (bd_version b0) (bd_type b0) j0"
  have rest: "put_blobs s1 cid blobs = (s', None)"
    using Cons.prems(1) j0 by (simp add: s1_def)
  have rows: "match_checkpoint s1 cid \<noteq> []"
    using Cons.prems(3) by (simp add: s1_def match_checkpoint_def)
  show ?case
  proof (cases "b = b0")
    case True
    have new: "stored_states s1 (bd_channel b) (bd_version b) =
        [(fresh s, \<lparr>cs_channel = bd_channel b, cs_version = bd_version b,
                    cs_type = bd_type b, cs_blob = j\<rparr>)]"
      using Cons.prems(3,4) assms(6) j0 by (simp add: s1_def stored_upsert True)
    then have "stored_states s1 (bd_channel b) (bd_version b) \<noteq> []" by simp
    from put_blobs_stored_keep [OF this, of cid blobs] rest new show ?thesis by simp
  next
    case False
    with Cons.prems(2) have mem: "b \<in> set blobs" by simp
    then have "bd_channel b \<in> set (map bd_channel blobs)" by (simp add: image_iff) blast
    moreover have "bd_channel b0 \<notin> set (map bd_channel blobs)"
      using Cons.prems(5) by simp
    ultimately have "bd_channel b \<noteq> bd_channel b0" by metis
    then have none: "stored_states s1 (bd_channel b) (bd_version b) = []"
      using Cons.prems(4) by (simp add: s1_def stored_upsert)
    have d: "distinct (map bd_channel blobs)"
      using Cons.prems(5) by simp
    from Cons.IH [OF rest mem rows none d] show ?thesis .
  qed
qed

lemma put_complete:
  assumes "put sd s cfg cp md nv u = (s', Inr r)"
  obtains pc ty mty sc sm cid s1 blobs s3 where
    "parseConfig cfg = Inr pc" "as_string (get_prop cp ''id'') = Inr cid"
    "CYPHER_UPSERT_CHECKPOINT_SIMPLE s (threadId pc) (checkpointNs pc) cid ty sc sm = Inr s1"
    "dumpBlobs sd (channel_values_of cp) (channel_versions_of cp) = Inr blobs"
    "put_blobs (put_parent s1 pc cid) cid blobs = (s3, None)"
    "put_branch s3 (threadId pc) (checkpointNs pc) cid u = (s', None)"
    "r = \<lparr>thread_id = Some (threadId pc), checkpoint_ns = Some (checkpointNs pc),
          checkpoint_id = Some cid\<rparr>"
proof (cases rule: put_cases [of sd s cfg cp md nv u])
  case (fail e)
  with assms show ?thesis by simp
next
  case (run pc ty mty sc sm cid s1)
  show ?thesis
  proof (cases rule: put_steps_cases [of sd cp s1 pc cid u])
    case (dump_fail e)
    with assms run(6) show ?thesis by simp
  next
    case (blob_fail blobs s3 e)
    with assms run(6) show ?thesis by simp
  next
    case (branch_fail blobs s3 s4 e)
    with assms run(6) show ?thesis by simp
  next
    case (complete blobs s3 s4)
    with assms run(6) have "s4 = s'"
      and "r = \<lparr>thread_id = Some (threadId pc), checkpoint_ns = Some (checkpointNs pc),
          checkpoint_id = Some cid\<rparr>" by simp_all
    with complete run that show ?thesis
      by (simp add: channel_values_of_def channel_versions_of_def)
  qed
qed

lemma put_branch_frame [simp]:
  "HAS_CHANNEL (fst (put_branch s tid ns cid u)) = HAS_CHANNEL s"
  "Checkpoints (fst (put_branch s tid ns cid u)) = Checkpoints s"
  "HAS_CHECKPOINT (fst (put_branch s tid ns cid u)) = HAS_CHECKPOINT s"
  "PREVIOUS (fst (put_branch s tid ns cid u)) = PREVIOUS s"
  "Threads (fst (put_branch s tid ns cid u)) = Threads s"
  "constraints (fst (put_branch s tid ns cid u)) = constraints s"
  by (auto simp: put_branch_def create_main_branch_frame split: sum.split)

lemma stored_states_cong:
  "ChannelStates s' = ChannelStates s \<Longrightarrow> stored_states s' = stored_states s"
  by (simp add: stored_states_def fun_eq_iff)

lemma dumpBlobs_loop_mem:
  "dumpBlobs_loop sd vers es = Inr blobs \<Longrightarrow> (ch, v) \<in> set es \<Longrightarrow>
     \<exists>b\<in>set blobs. dumpBlob sd vers ch v = Inr b"
proof (induction es arbitrary: blobs)
  case Nil
  then show ?case by simp
next
  case (Cons e es)
  obtain ch0 v0 where e: "e = (ch0, v0)" by (cases e)
  from Cons.prems(1) obtain b bs where
    b: "dumpBlob sd vers ch0 v0 = Inr b" and bs: "dumpBlobs_loop sd vers es = Inr bs"
    and blobs: "blobs = b # bs"
    by (auto simp: e andThen_def split: sum.splits)
  show ?case
  proof (cases "(ch, v) = e")
    case True
    with b show ?thesis by (simp add: blobs e)
  next
    case False
    with Cons.prems(2) have "(ch, v) \<in> set es" by simp
    from Cons.IH [OF bs this] show ?thesis by (auto simp: blobs)
  qed
qed

lemma put_keeps_stored:
  assumes "stored_states s ch ver \<noteq> []"
  shows "stored_states (fst (put sd s cfg cp md nv u)) ch ver = stored_states s ch ver"
proof (rule put_keeps)
  show "stored_states s ch ver = stored_states s ch ver" by simp
next
  fix t :: store and c ch' ver' ty b
  assume "stored_states t ch ver = stored_states s ch ver"
  with assms
  show "stored_states (CYPHER_UPSERT_CHANNEL_STATE t c ch' ver' ty b) ch ver = stored_states s ch ver"
    by (auto simp: stored_upsert)
qed (simp_all add: stored_states_def upsert_checkpoint_frame create_main_branch_frame)

lemma put_edges_mono:
  "set (HAS_CHANNEL s) \<subseteq> set (HAS_CHANNEL (fst (put sd s cfg cp md nv u)))"
proof (rule put_keeps)
  show "set (HAS_CHANNEL s) \<subseteq> set (HAS_CHANNEL s)" by simp
next
  fix t :: store and c ch ver ty b
  assume "set (HAS_CHANNEL s) \<subseteq> set (HAS_CHANNEL t)"
  with upsert_edges_mono [of t c ch ver ty b]
  show "set (HAS_CHANNEL s) \<subseteq> set (HAS_CHANNEL (CYPHER_UPSERT_CHANNEL_STATE t c ch ver ty b))"
    by blast
qed (simp_all add: upsert_checkpoint_frame create_main_branch_frame)

lemma put_match_other:
  assumes "as_string (get_prop cp ''id'') \<noteq> Inr c"
  shows "match_checkpoint (fst (put sd s cfg cp md nv u)) c = match_checkpoint s c"
proof (cases rule: put_cases [of sd s cfg cp md nv u])
  case (fail e)
  then show ?thesis by simp
next
  case (run pc ty mty sc sm cid s1)
  with assms have "c \<noteq> cid" by auto
  from upsert_checkpoint_matches(2) [OF run(5) this] show ?thesis
    by (simp add: run(6) match_checkpoint_def)
qed

lemma put_channel_post:
  assumes ok: "put sd s cfg cp md nv u = (s', Inr r)"
    and id: "as_string (get_prop cp ''id'') = Inr cid"
    and e: "(channel, val) \<in> set (object_entries (channel_values_of cp))"
  shows "match_checkpoint s' cid \<noteq> []"
    and "stored_states s' channel (channel_version (channel_versions_of cp) channel) \<noteq> []"
    and "\<forall>(n, x) \<in> set (stored_states s' channel (channel_version (channel_versions_of cp) channel)).
           \<forall>c \<in> set (match_checkpoint s' cid). (c, n) \<in> set (HAS_CHANNEL s')"
    and "stored_states s channel (channel_version (channel_versions_of cp) channel) = [] \<Longrightarrow>
         distinct (map fst (object_entries (channel_values_of cp))) \<Longrightarrow>
         \<exists>n b j. dumpBlob sd (channel_versions_of cp) channel val = Inr b \<and> bd_blob b = Some j \<and>
           stored_states s' channel (channel_version (channel_versions_of cp) channel) =
             [(n, \<lparr>cs_channel = channel,
                   cs_version = channel_version (channel_versions_of cp) channel,
                   cs_type = bd_type b, cs_blob = j\<rparr>)]"
proof -
  from ok obtain pc ty mty sc sm cid' s1 blobs s3 where
    cid': "as_string (get_prop cp ''id'') = Inr cid'"
    and s1: "CYPHER_UPSERT_CHECKPOINT_SIMPLE s (threadId pc) (checkpointNs pc) cid' ty sc sm = Inr s1"
    and d: "dumpBlobs sd (channel_values_of cp) (channel_versions_of cp) = Inr blobs"
    and s3: "put_blobs (put_parent s1 pc cid') cid' blobs = (s3, None)"
    and s': "put_branch s3 (threadId pc) (checkpointNs pc) cid' u = (s', None)"
    by (rule put_complete)
  from id cid' have [simp]: "cid' = cid" by simp
  define s2 where "s2 = put_parent s1 pc cid"
  have rows2: "match_checkpoint s2 cid \<noteq> []"
    using upsert_checkpoint_matches(1) [OF s1] by (simp add: s2_def match_checkpoint_def)
  have f3: "fst (put_blobs s2 cid blobs) = s3"
    using s3 by (simp add: s2_def)
  have cp3: "Checkpoints s3 = Checkpoints s2"
    unfolding f3 [symmetric] by simp
  have f': "fst (put_branch s3 (threadId pc) (checkpointNs pc) cid u) = s'"
    using s' by simp
  have cp': "Checkpoints s' = Checkpoints s3" "HAS_CHANNEL s' = HAS_CHANNEL s3"
    "ChannelStates s' = ChannelStates s3"
    unfolding f' [symmetric] by simp_all
  have rows': "match_checkpoint s' cid = match_checkpoint s2 cid"
    by (simp add: match_checkpoint_def cp' cp3)
  have st': "stored_states s' = stored_states s3"
    by (rule stored_states_cong) (rule cp')
  from dumpBlobs_loop_mem [OF d [unfolded dumpBlobs_def] e] obtain b where
    b: "b \<in> set blobs" "dumpBlob sd (channel_versions_of cp) channel val = Inr b" by blast
  from dumpBlob_fields [OF b(2)] have key:
    "bd_channel b = channel" "bd_version b = channel_version (channel_versions_of cp) channel"
    by simp_all
  note post = put_blobs_post [OF s3 [unfolded \<open>cid' = cid\<close>, folded s2_def] b(1) rows2]
  show "match_checkpoint s' cid \<noteq> []"
    using rows2 rows' by simp
  show "stored_states s' channel (channel_version (channel_versions_of cp) channel) \<noteq> []"
    using post by (simp add: key st')
  show "\<forall>(n, x) \<in> set (stored_states s' channel (channel_version (channel_versions_of cp) channel)).
           \<forall>c \<in> set (match_checkpoint s' cid). (c, n) \<in> set (HAS_CHANNEL s')"
    using post by (simp add: key st' rows' cp')
  show "\<exists>n b j. dumpBlob sd (channel_versions_of cp) channel val = Inr b \<and> bd_blob b = Some j \<and>
           stored_states s' channel (channel_version (channel_versions_of cp) channel) =
             [(n, \<lparr>cs_channel = channel,
                   cs_version = channel_version (channel_versions_of cp) channel,
                   cs_type = bd_type b, cs_blob = j\<rparr>)]"
    if none: "stored_states s channel (channel_version (channel_versions_of cp) channel) = []"
      and dist: "distinct (map fst (object_entries (channel_values_of cp)))"
  proof -
    have "ChannelStates s2 = ChannelStates s"
      using upsert_checkpoint_frame(2) [OF s1] by (simp add: s2_def)
    then have none2: "stored_states s2 (bd_channel b) (bd_version b) = []"
      using none by (simp add: key stored_states_def)
    have dist': "distinct (map bd_channel blobs)"
      using dumpBlobs_loop_fields [OF d [unfolded dumpBlobs_def]] dist by simp
    obtain j where j: "bd_blob b = Some j"
    proof (cases "bd_blob b")
      case None
      have "snd (put_blobs t cid bs) \<noteq> None" if "b \<in> set bs" for t bs
        using that None by (induction bs arbitrary: t) (auto split: option.split)
      from this [OF b(1), of s2] s3 show ?thesis by (simp add: s2_def)
    next
      case (Some j)
      then show ?thesis by (rule that)
    qed
    from put_blobs_first [OF s3 [unfolded \<open>cid' = cid\<close>, folded s2_def] b(1) rows2 none2 dist' j]
    show ?thesis
      using b(2) j by (auto simp: key st')
  qed
qed

subsection \<open>Lists with distinct keys\<close>

lemma filter_key_le1:
  assumes "distinct (map f xs)" and "\<And>x. P x \<Longrightarrow> f x = k"
  shows "length (filter P xs) \<le> 1"
  using assms(1)
proof (induction xs)
  case Nil
  show ?case by simp
next
  case (Cons x xs)
  show ?case
  proof (cases "P x")
    case True
    have "\<not> P y" if "y \<in> set xs" for y
    proof
      assume "P y"
      then have "f y = f x" using assms(2) True by simp
      moreover have "f y \<in> f ` set xs" using that by (rule imageI)
      ultimately show False using Cons.prems by simp
    qed
    then have "filter P xs = []"
      by (simp add: filter_empty_conv)
    with True show ?thesis by simp
  next
    case False
    with Cons show ?thesis by simp
  qed
qed

lemma length_le1_cases: "length xs \<le> 1 \<Longrightarrow> xs = [] \<or> (\<exists>x. xs = [x])"
  by (cases xs) auto

lemma match_thread_le1:
  assumes "inv_threads s"
  shows "length (match_thread s tid ns) \<le> 1"
  unfolding match_thread_def length_map
  by (rule filter_key_le1 [where k = "(tid, ns)", OF assms [unfolded inv_threads_def]]) auto

lemma match_checkpoint_le1:
  assumes "distinct (map (\<lambda>(n, c). cp_checkpoint_id c) (Checkpoints s))"
  shows "length (match_checkpoint s cid) \<le> 1"
  unfolding match_checkpoint_def length_map
  by (rule filter_key_le1 [where k = cid, OF assms]) auto

lemma match_branch_le1:
  assumes "distinct (map (\<lambda>(n, b). b_branch_id b) (Branches s))"
  shows "length (match_branch s bid) \<le> 1"
  unfolding match_branch_def length_map
  by (rule filter_key_le1 [where k = bid, OF assms]) auto

subsection \<open>Threads stay unique\<close>

lemma inv_threads_cong: "Threads s' = Threads s \<Longrightarrow> inv_threads s \<Longrightarrow> inv_threads s'"
  by (simp add: inv_threads_def)

lemma inv_threads_upsert_checkpoint:
  assumes "inv_threads s" and "CYPHER_UPSERT_CHECKPOINT_SIMPLE s tid ns cid ty cp md = Inr s'"
  shows "inv_threads s'"
proof (cases "match_thread s tid ns = []")
  case True
  then have "(tid, ns) \<notin> (\<lambda>(n, t). (th_thread_id t, th_checkpoint_ns t)) ` set (Threads s)"
    by (auto simp: match_thread_def filter_empty_conv)
  moreover from True assms(2) have
    "Threads s' = Threads s @ [(fresh s, \<lparr>th_thread_id = tid, th_checkpoint_ns = ns\<rparr>)]"
    by (auto simp: CYPHER_UPSERT_CHECKPOINT_SIMPLE_def Let_def split: if_splits)
  ultimately show ?thesis
    using assms(1) by (simp add: inv_threads_def)
next
  case False
  with assms(2) have "Threads s' = Threads s"
    by (auto simp: CYPHER_UPSERT_CHECKPOINT_SIMPLE_def Let_def split: if_splits)
  with assms(1) show ?thesis by (rule inv_threads_cong [rotated])
qed

lemma inv_threads_detach: "inv_threads s \<Longrightarrow> inv_threads (detach_delete d s)"
  by (simp add: inv_threads_def detach_delete_def without_nodes_def distinct_map_filter)


subsection \<open>Targets of relationships\<close>

lemma targets_mem:
  "(n, x) \<in> set (targets es ns a) \<Longrightarrow> (a, n) \<in> set es \<and> (n, x) \<in> set ns"
  by (auto simp: targets_def out_of_def node_of_def split: option.splits
        dest: map_of_SomeD map_of_SomeD [OF sym])

lemma map_fst_targets_aux:
  "map fst (concat (map (\<lambda>n. case node_of ns n of None \<Rightarrow> [] | Some x \<Rightarrow> [(n, x)]) l)) =
     filter (\<lambda>n. node_of ns n \<noteq> None) l"
  by (induction l) (auto split: option.split)

lemma map_fst_targets:
  "map fst (targets es ns a) = filter (\<lambda>n. node_of ns n \<noteq> None) (out_of es a)"
  by (simp add: targets_def map_fst_targets_aux)

lemma out_of_distinct: "distinct (map snd es) \<Longrightarrow> distinct (out_of es a)"
  by (simp add: out_of_def distinct_map_filter)

lemma targets_distinct: "distinct (map snd es) \<Longrightarrow> distinct (map fst (targets es ns a))"
  by (simp add: map_fst_targets out_of_distinct)

lemma distinct_all_equal_le1:
  assumes "distinct xs" and "\<And>x y. x \<in> set xs \<Longrightarrow> y \<in> set xs \<Longrightarrow> x = y"
  shows "length xs \<le> 1"
proof (cases xs)
  case Nil
  then show ?thesis by simp
next
  case (Cons x ys)
  show ?thesis
  proof (cases ys)
    case Nil
    with Cons show ?thesis by simp
  next
    case (Cons y zs)
    with \<open>xs = x # ys\<close> assms(2) [of x y] assms(1) show ?thesis by simp
  qed
qed

lemma distinct_map_eq:
  "distinct (map f xs) \<Longrightarrow> x \<in> set xs \<Longrightarrow> y \<in> set xs \<Longrightarrow> f x = f y \<Longrightarrow> x = y"
  by (meson distinct_map inj_onD)

lemma out_of_le1: "distinct (map fst es) \<Longrightarrow> length (out_of es a) \<le> 1"
  unfolding out_of_def length_map
  by (rule filter_key_le1 [where f = fst and k = a]) auto

subsection \<open>Branches stay unique, and a thread keeps at most one active branch\<close>

lemma list_all_less_mono:
  "list_all (\<lambda>(a, b). b < (m :: nat)) es \<Longrightarrow> m \<le> m' \<Longrightarrow> list_all (\<lambda>(a, b). b < m') es"
  by (auto simp: list_all_iff)

lemma inv_branches_cong:
  assumes "inv_branches s" and "constraints s' = constraints s" and "Branches s' = Branches s"
    and "HAS_BRANCH s' = HAS_BRANCH s" and "ACTIVE_BRANCH s' = ACTIVE_BRANCH s"
    and "fresh s \<le> fresh s'"
  shows "inv_branches s'"
  using assms list_all_less_mono [of "fresh s" "HAS_BRANCH s" "fresh s'"]
  by (simp add: inv_branches_def)

lemma inv_branches_create_main:
  assumes th: "inv_threads s" and br: "inv_branches s"
    and run: "CYPHER_CREATE_MAIN_BRANCH s tid ns bid = Inr s'"
  shows "inv_branches s'"
proof -
  define rows where "rows = filter (\<lambda>t. out_of (HAS_BRANCH s) t = []) (match_thread s tid ns)"
  have "length rows \<le> 1"
    using match_thread_le1 [OF th, of tid ns] length_filter_le [of _ "match_thread s tid ns"]
    unfolding rows_def by (meson le_trans)
  then consider "rows = []" | t where "rows = [t]"
    using length_le1_cases by blast
  then show ?thesis
  proof cases
    case 1
    with run have "s' = s\<lparr>fresh := fresh s, Branches := Branches s, HAS_BRANCH := HAS_BRANCH s,
        ACTIVE_BRANCH := ACTIVE_BRANCH s\<rparr>"
      by (simp add: CYPHER_CREATE_MAIN_BRANCH_def Let_def rows_def [symmetric] new_nodes_def)
    then have "s' = s" by simp
    with br show ?thesis by simp
  next
    case 2
    have con: "constraints s" using br by (simp add: inv_branches_def)
    with run 2 have nb: "match_branch s bid = []"
      by (simp add: CYPHER_CREATE_MAIN_BRANCH_def Let_def rows_def [symmetric] split: if_splits)
    with run 2 con have s': "s' = s\<lparr>fresh := fresh s + 1,
        Branches := Branches s @ [(fresh s, \<lparr>b_branch_id = bid, b_name = ''main'', b_fork_point_id = None\<rparr>)],
        HAS_BRANCH := HAS_BRANCH s @ [(t, fresh s)],
        ACTIVE_BRANCH := ACTIVE_BRANCH s @ [(t, fresh s)]\<rparr>"
      by (simp add: CYPHER_CREATE_MAIN_BRANCH_def Let_def rows_def [symmetric] new_nodes_def)
    have "t \<in> set rows" using 2 by simp
    then have no_out: "out_of (HAS_BRANCH s) t = []"
      by (simp add: rows_def)
    have t_new: "t \<notin> fst ` set (ACTIVE_BRANCH s)"
    proof
      assume "t \<in> fst ` set (ACTIVE_BRANCH s)"
      then obtain b where "(t, b) \<in> set (ACTIVE_BRANCH s)" by auto
      with br have "(t, b) \<in> set (HAS_BRANCH s)" by (auto simp: inv_branches_def)
      then have "b \<in> set (out_of (HAS_BRANCH s) t)" by (force simp: out_of_def)
      with no_out show False by simp
    qed
    have f_new: "fresh s \<notin> snd ` set (HAS_BRANCH s)"
      using br by (auto simp: inv_branches_def list_all_iff)
    have id_new: "bid \<notin> (\<lambda>(n, b). b_branch_id b) ` set (Branches s)"
      using nb by (auto simp: match_branch_def filter_empty_conv)
    have lt: "list_all (\<lambda>(a, b). b < fresh s + 1) (HAS_BRANCH s)"
      using br list_all_less_mono [of "fresh s" "HAS_BRANCH s" "fresh s + 1"]
      by (simp add: inv_branches_def)
    show ?thesis
      using br t_new f_new id_new lt by (auto simp: inv_branches_def s')
  qed
qed


lemma inv_branches_create_branch:
  assumes th: "inv_threads s" and br: "inv_branches s"
    and run: "CYPHER_CREATE_BRANCH s tid ns bid name fork = Inr (s', k)"
  shows "inv_branches s'"
proof -
  have "length (match_thread s tid ns) \<le> 1"
    by (rule match_thread_le1 [OF th])
  then consider "match_thread s tid ns = []" | t where "match_thread s tid ns = [t]"
    using length_le1_cases by blast
  then show ?thesis
  proof cases
    case 1
    with run have "s' = s\<lparr>fresh := fresh s, Branches := Branches s, HAS_BRANCH := HAS_BRANCH s,
        HEAD := HEAD s\<rparr>"
      by (simp add: CYPHER_CREATE_BRANCH_def Let_def new_nodes_def)
    then have "s' = s" by simp
    with br show ?thesis by simp
  next
    case 2
    have con: "constraints s" using br by (simp add: inv_branches_def)
    with run 2 have nb: "match_branch s bid = []"
      by (simp add: CYPHER_CREATE_BRANCH_def Let_def split: if_splits)
    with run 2 con have s':
      "constraints s' = constraints s"
      "fresh s' = fresh s + 1"
      "Branches s' = Branches s @ [(fresh s, \<lparr>b_branch_id = bid, b_name = name, b_fork_point_id = Some fork\<rparr>)]"
      "HAS_BRANCH s' = HAS_BRANCH s @ [(t, fresh s)]"
      "ACTIVE_BRANCH s' = ACTIVE_BRANCH s"
      by (auto simp: CYPHER_CREATE_BRANCH_def Let_def new_nodes_def)
    have f_new: "fresh s \<notin> snd ` set (HAS_BRANCH s)"
      using br by (auto simp: inv_branches_def list_all_iff)
    have id_new: "bid \<notin> (\<lambda>(n, b). b_branch_id b) ` set (Branches s)"
      using nb by (auto simp: match_branch_def filter_empty_conv)
    have lt: "list_all (\<lambda>(a, b). b < fresh s + 1) (HAS_BRANCH s)"
      using br list_all_less_mono [of "fresh s" "HAS_BRANCH s" "fresh s + 1"]
      by (simp add: inv_branches_def)
    show ?thesis
      using br f_new id_new lt by (auto simp: inv_branches_def s')
  qed
qed

lemma set_active_pairs_le1:
  assumes br: "inv_branches s"
  shows "length (filter (\<lambda>(b, bk). b_branch_id bk = bid)
           (targets (HAS_BRANCH s) (Branches s) t)) \<le> 1"
proof (rule distinct_all_equal_le1)
  have "distinct (map fst (targets (HAS_BRANCH s) (Branches s) t))"
    using br by (intro targets_distinct) (simp add: inv_branches_def)
  then have "distinct (targets (HAS_BRANCH s) (Branches s) t)"
    by (rule distinct_map [THEN iffD1, THEN conjunct1])
  then show "distinct (filter (\<lambda>(b, bk). b_branch_id bk = bid)
           (targets (HAS_BRANCH s) (Branches s) t))"
    by simp
next
  fix x y
  assume x: "x \<in> set (filter (\<lambda>(b, bk). b_branch_id bk = bid) (targets (HAS_BRANCH s) (Branches s) t))"
    and y: "y \<in> set (filter (\<lambda>(b, bk). b_branch_id bk = bid) (targets (HAS_BRANCH s) (Branches s) t))"
  obtain b bk where xb: "x = (b, bk)" by (cases x)
  obtain b' bk' where yb: "y = (b', bk')" by (cases y)
  from x y have "x \<in> set (Branches s)" "y \<in> set (Branches s)"
    and "(\<lambda>(n, b). b_branch_id b) x = (\<lambda>(n, b). b_branch_id b) y"
    using targets_mem [of b bk "HAS_BRANCH s" "Branches s" t]
      targets_mem [of b' bk' "HAS_BRANCH s" "Branches s" t]
    by (auto simp: xb yb)
  with br show "x = y"
    unfolding inv_branches_def by (meson distinct_map_eq)
qed

lemma inv_branches_set_active:
  assumes th: "inv_threads s" and br: "inv_branches s"
  shows "inv_branches (fst (CYPHER_SET_ACTIVE_BRANCH s tid ns bid))"
proof -
  have frame: "constraints (fst (CYPHER_SET_ACTIVE_BRANCH s tid ns bid)) = constraints s"
    "fresh (fst (CYPHER_SET_ACTIVE_BRANCH s tid ns bid)) = fresh s"
    "Branches (fst (CYPHER_SET_ACTIVE_BRANCH s tid ns bid)) = Branches s"
    "HAS_BRANCH (fst (CYPHER_SET_ACTIVE_BRANCH s tid ns bid)) = HAS_BRANCH s"
    by (simp_all add: CYPHER_SET_ACTIVE_BRANCH_def Let_def)
  have "length (match_thread s tid ns) \<le> 1"
    by (rule match_thread_le1 [OF th])
  then consider "match_thread s tid ns = []" | t where "match_thread s tid ns = [t]"
    using length_le1_cases by blast
  then show ?thesis
  proof cases
    case 1
    then have "ACTIVE_BRANCH (fst (CYPHER_SET_ACTIVE_BRANCH s tid ns bid)) = ACTIVE_BRANCH s"
      by (simp add: CYPHER_SET_ACTIVE_BRANCH_def Let_def)
    with br frame show ?thesis by (simp add: inv_branches_def)
  next
    case 2
    have "length (out_of (ACTIVE_BRANCH s) t) \<le> 1"
      using br by (intro out_of_le1) (simp add: inv_branches_def)
    then have opt: "map (\<lambda>old. t) (optional (out_of (ACTIVE_BRANCH s) t)) = [t]"
      using length_le1_cases [of "out_of (ACTIVE_BRANCH s) t"] by (auto simp: optional_def)
    define F where "F = filter (\<lambda>(b, bk). b_branch_id bk = bid) (targets (HAS_BRANCH s) (Branches s) t)"
    have act: "ACTIVE_BRANCH (fst (CYPHER_SET_ACTIVE_BRANCH s tid ns bid)) =
        filter (\<lambda>(a, b). a \<noteq> t) (ACTIVE_BRANCH s) @ map (\<lambda>(b, bk). (t, b)) F"
      using 2 opt by (simp add: CYPHER_SET_ACTIVE_BRANCH_def Let_def F_def)
    have "length F \<le> 1"
      unfolding F_def by (rule set_active_pairs_le1 [OF br])
    then consider "F = []" | b bk where "F = [(b, bk)]"
      using length_le1_cases [of F] by auto
    then show ?thesis
    proof cases
      case 1
      with act br frame show ?thesis
        by (auto simp: inv_branches_def distinct_map_filter)
    next
      case 2
      then have "(b, bk) \<in> set F" by simp
      then have "(b, bk) \<in> set (targets (HAS_BRANCH s) (Branches s) t)"
        unfolding F_def by simp
      then have edge: "(t, b) \<in> set (HAS_BRANCH s)"
        using targets_mem by fastforce
      have "t \<notin> fst ` set (filter (\<lambda>(a, b). a \<noteq> t) (ACTIVE_BRANCH s))"
        by auto
      with act 2 br frame edge show ?thesis
        by (auto simp: inv_branches_def distinct_map_filter)
    qed
  qed
qed

lemma inv_branches_detach: "inv_branches s \<Longrightarrow> inv_branches (detach_delete d s)"
  by (auto simp: inv_branches_def detach_delete_def without_nodes_def without_edges_def
        distinct_map_filter list_all_iff)


subsection \<open>Checkpoints stay unique, with at most one parent\<close>

lemma list_all_fst_less_mono:
  "list_all (\<lambda>(a, b). a < (m :: nat)) es \<Longrightarrow> m \<le> m' \<Longrightarrow> list_all (\<lambda>(a, b). a < m') es"
  by (auto simp: list_all_iff)

lemma inv_history_cong:
  assumes "inv_history s" and "constraints s' = constraints s" and "Checkpoints s' = Checkpoints s"
    and "HAS_CHECKPOINT s' = HAS_CHECKPOINT s" and "PREVIOUS s' = PREVIOUS s"
    and "fresh s \<le> fresh s'"
  shows "inv_history s'"
  using assms list_all_less_mono [of "fresh s" "HAS_CHECKPOINT s" "fresh s'"]
    list_all_fst_less_mono [of "fresh s" "PREVIOUS s" "fresh s'"]
    list_all_fst_less_mono [of "fresh s" "Checkpoints s" "fresh s'"]
  by (simp add: inv_history_def)

lemma upsert_checkpoint_result:
  assumes con: "constraints s"
    and run: "CYPHER_UPSERT_CHECKPOINT_SIMPLE s tid ns cid ty cp md = Inr s'"
  shows "\<exists>f r. fresh s \<le> f \<and> fresh s' = f + 1 \<and> match_checkpoint s cid = [] \<and>
     Checkpoints s' = Checkpoints s @
       [(f, \<lparr>cp_checkpoint_id = cid, cp_type = ty, cp_checkpoint = cp, cp_metadata = md\<rparr>)] \<and>
     HAS_CHECKPOINT s' = HAS_CHECKPOINT s @ [(r, f)]"
proof -
  define rows where "rows = (if match_thread s tid ns = [] then [fresh s] else match_thread s tid ns)"
  from con run have none: "match_checkpoint s cid = []" and le: "length rows \<le> 1"
    by (auto simp: CYPHER_UPSERT_CHECKPOINT_SIMPLE_def Let_def rows_def split: if_splits)
  have "rows \<noteq> []" by (simp add: rows_def)
  with le obtain r where r: "rows = [r]"
    using length_le1_cases by blast
  show ?thesis
  proof (cases "match_thread s tid ns = []")
    case True
    with con run none r show ?thesis
      by (auto simp: CYPHER_UPSERT_CHECKPOINT_SIMPLE_def Let_def rows_def new_nodes_def
            split: if_splits)
  next
    case False
    with con run none r show ?thesis
      by (auto simp: CYPHER_UPSERT_CHECKPOINT_SIMPLE_def Let_def rows_def new_nodes_def
            split: if_splits)
  qed
qed

lemma inv_history_upsert_checkpoint:
  assumes inv: "inv_history s"
    and run: "CYPHER_UPSERT_CHECKPOINT_SIMPLE s tid ns cid ty cp md = Inr s'"
  shows "inv_history s'" and "\<forall>c\<in>set (match_checkpoint s' cid). c \<notin> fst ` set (PREVIOUS s')"
proof -
  have con: "constraints s" using inv by (simp add: inv_history_def)
  from upsert_checkpoint_result [OF con run] obtain f r where
    f: "fresh s \<le> f" "fresh s' = f + 1" and none: "match_checkpoint s cid = []"
    and cps: "Checkpoints s' = Checkpoints s @
       [(f, \<lparr>cp_checkpoint_id = cid, cp_type = ty, cp_checkpoint = cp, cp_metadata = md\<rparr>)]"
    and hc: "HAS_CHECKPOINT s' = HAS_CHECKPOINT s @ [(r, f)]"
    by blast
  note frame = upsert_checkpoint_frame [OF run]
  have le: "fresh s \<le> fresh s'" using f by simp
  have id_new: "cid \<notin> (\<lambda>(n, c). cp_checkpoint_id c) ` set (Checkpoints s)"
    using none by (auto simp: match_checkpoint_def filter_empty_conv)
  have f_new: "f \<notin> snd ` set (HAS_CHECKPOINT s)"
    using inv f(1) by (auto simp: inv_history_def list_all_iff)
  have f_src: "f \<notin> fst ` set (PREVIOUS s)"
    using inv f(1) by (auto simp: inv_history_def list_all_iff)
  have m1: "list_all (\<lambda>(n, c). n < fresh s') (Checkpoints s)"
    and m2: "list_all (\<lambda>(a, b). b < fresh s') (HAS_CHECKPOINT s)"
    and m3: "list_all (\<lambda>(a, b). a < fresh s') (PREVIOUS s)"
    using inv le by (auto simp: inv_history_def list_all_iff)
  show "inv_history s'"
    using inv id_new f_new m1 m2 m3 f(2)
    by (simp add: inv_history_def cps hc frame)
  have "match_checkpoint s' cid = [f]"
    using none by (simp add: match_checkpoint_def cps)
  with f_src show "\<forall>c\<in>set (match_checkpoint s' cid). c \<notin> fst ` set (PREVIOUS s')"
    by (simp add: frame)
qed

lemma merge_edges_single:
  "merge_edges es [r] = (if r \<in> set es then es else es @ [r])"
  by simp

lemma inv_history_link_parent:
  assumes inv: "inv_history s"
    and new: "\<forall>c\<in>set (match_checkpoint s cid). c \<notin> fst ` set (PREVIOUS s)"
  shows "inv_history (CYPHER_LINK_PARENT_CHECKPOINT s cid pid)"
proof -
  have d: "distinct (map (\<lambda>(n, c). cp_checkpoint_id c) (Checkpoints s))"
    using inv by (simp add: inv_history_def)
  consider "match_checkpoint s cid = [] \<or> match_checkpoint s pid = []"
    | c p where "match_checkpoint s cid = [c]" "match_checkpoint s pid = [p]"
    using length_le1_cases [OF match_checkpoint_le1 [OF d, of cid]]
      length_le1_cases [OF match_checkpoint_le1 [OF d, of pid]] by blast
  then show ?thesis
  proof cases
    case 1
    then have "CYPHER_LINK_PARENT_CHECKPOINT s cid pid = s"
      by (auto simp: CYPHER_LINK_PARENT_CHECKPOINT_def)
    with inv show ?thesis by simp
  next
    case 2
    from 2(1) new have src: "c \<notin> fst ` set (PREVIOUS s)" by simp
    then have "(c, p) \<notin> set (PREVIOUS s)" by force
    with 2 have prev: "PREVIOUS (CYPHER_LINK_PARENT_CHECKPOINT s cid pid) = PREVIOUS s @ [(c, p)]"
      by (simp add: CYPHER_LINK_PARENT_CHECKPOINT_def)
    have "c \<in> set (match_checkpoint s cid)" using 2(1) by simp
    then have "c \<in> fst ` set (Checkpoints s)"
      by (auto simp: match_checkpoint_def)
    with inv have "c < fresh s"
      by (auto simp: inv_history_def list_all_iff)
    with inv src show ?thesis
      by (simp add: inv_history_def prev)
  qed
qed

lemma inv_history_detach: "inv_history s \<Longrightarrow> inv_history (detach_delete d s)"
  by (auto simp: inv_history_def detach_delete_def without_nodes_def without_edges_def
        distinct_map_filter list_all_iff)


subsection \<open>Every operation keeps the store consistent\<close>

lemma fresh_mono:
  "CYPHER_UPSERT_CHECKPOINT_SIMPLE s tid ns cid ty cp md = Inr s' \<Longrightarrow> fresh s \<le> fresh s'"
  "fresh s \<le> fresh (CYPHER_UPSERT_CHANNEL_STATE s cid ch ver ty b)"
  "CYPHER_CREATE_MAIN_BRANCH s tid ns bid = Inr s' \<Longrightarrow> fresh s \<le> fresh s'"
  "fresh s \<le> fresh (CYPHER_UPSERT_WRITE s cid task path i ch ty b)"
  "CYPHER_CREATE_BRANCH s tid ns bid name fork = Inr (s', k) \<Longrightarrow> fresh s \<le> fresh s'"
  by (auto simp: CYPHER_UPSERT_CHECKPOINT_SIMPLE_def CYPHER_UPSERT_CHANNEL_STATE_def
        CYPHER_CREATE_MAIN_BRANCH_def CYPHER_UPSERT_WRITE_def CYPHER_CREATE_BRANCH_def
        Let_def split: if_splits)

lemma upsert_write_frame [simp]:
  "constraints (CYPHER_UPSERT_WRITE s cid task path i ch ty b) = constraints s"
  "Threads (CYPHER_UPSERT_WRITE s cid task path i ch ty b) = Threads s"
  "Checkpoints (CYPHER_UPSERT_WRITE s cid task path i ch ty b) = Checkpoints s"
  "ChannelStates (CYPHER_UPSERT_WRITE s cid task path i ch ty b) = ChannelStates s"
  "Branches (CYPHER_UPSERT_WRITE s cid task path i ch ty b) = Branches s"
  "HAS_CHECKPOINT (CYPHER_UPSERT_WRITE s cid task path i ch ty b) = HAS_CHECKPOINT s"
  "PREVIOUS (CYPHER_UPSERT_WRITE s cid task path i ch ty b) = PREVIOUS s"
  "HAS_CHANNEL (CYPHER_UPSERT_WRITE s cid task path i ch ty b) = HAS_CHANNEL s"
  "HAS_BRANCH (CYPHER_UPSERT_WRITE s cid task path i ch ty b) = HAS_BRANCH s"
  "ACTIVE_BRANCH (CYPHER_UPSERT_WRITE s cid task path i ch ty b) = ACTIVE_BRANCH s"
  "HEAD (CYPHER_UPSERT_WRITE s cid task path i ch ty b) = HEAD s"
  "ON_BRANCH (CYPHER_UPSERT_WRITE s cid task path i ch ty b) = ON_BRANCH s"
  by (simp_all add: CYPHER_UPSERT_WRITE_def Let_def)

lemma create_branch_frame:
  assumes "CYPHER_CREATE_BRANCH s tid ns bid name fork = Inr (s', k)"
  shows "constraints s' = constraints s" "Threads s' = Threads s"
    "Checkpoints s' = Checkpoints s" "ChannelStates s' = ChannelStates s"
    "PendingWrites s' = PendingWrites s" "HAS_CHECKPOINT s' = HAS_CHECKPOINT s"
    "PREVIOUS s' = PREVIOUS s" "HAS_CHANNEL s' = HAS_CHANNEL s" "HAS_WRITE s' = HAS_WRITE s"
    "ACTIVE_BRANCH s' = ACTIVE_BRANCH s" "ON_BRANCH s' = ON_BRANCH s"
  using assms
  by (auto simp: CYPHER_CREATE_BRANCH_def Let_def split: if_splits)

lemma set_active_frame [simp]:
  "constraints (fst (CYPHER_SET_ACTIVE_BRANCH s tid ns bid)) = constraints s"
  "fresh (fst (CYPHER_SET_ACTIVE_BRANCH s tid ns bid)) = fresh s"
  "Threads (fst (CYPHER_SET_ACTIVE_BRANCH s tid ns bid)) = Threads s"
  "Checkpoints (fst (CYPHER_SET_ACTIVE_BRANCH s tid ns bid)) = Checkpoints s"
  "ChannelStates (fst (CYPHER_SET_ACTIVE_BRANCH s tid ns bid)) = ChannelStates s"
  "PendingWrites (fst (CYPHER_SET_ACTIVE_BRANCH s tid ns bid)) = PendingWrites s"
  "Branches (fst (CYPHER_SET_ACTIVE_BRANCH s tid ns bid)) = Branches s"
  "HAS_CHECKPOINT (fst (CYPHER_SET_ACTIVE_BRANCH s tid ns bid)) = HAS_CHECKPOINT s"
  "PREVIOUS (fst (CYPHER_SET_ACTIVE_BRANCH s tid ns bid)) = PREVIOUS s"
  "HAS_CHANNEL (fst (CYPHER_SET_ACTIVE_BRANCH s tid ns bid)) = HAS_CHANNEL s"
  "HAS_WRITE (fst (CYPHER_SET_ACTIVE_BRANCH s tid ns bid)) = HAS_WRITE s"
  "HAS_BRANCH (fst (CYPHER_SET_ACTIVE_BRANCH s tid ns bid)) = HAS_BRANCH s"
  "HEAD (fst (CYPHER_SET_ACTIVE_BRANCH s tid ns bid)) = HEAD s"
  "ON_BRANCH (fst (CYPHER_SET_ACTIVE_BRANCH s tid ns bid)) = ON_BRANCH s"
  by (simp_all add: CYPHER_SET_ACTIVE_BRANCH_def Let_def)

lemma put_steps_keeps_from_parent:
  assumes init: "P (put_parent s1 pc cid)"
    and cs: "\<And>s c ch ver ty b. P s \<Longrightarrow> P (CYPHER_UPSERT_CHANNEL_STATE s c ch ver ty b)"
    and mb: "\<And>s tid ns bid s'. P s \<Longrightarrow> CYPHER_CREATE_MAIN_BRANCH s tid ns bid = Inr s' \<Longrightarrow> P s'"
    and hd: "\<And>s tid ns c. P s \<Longrightarrow> P (CYPHER_UPDATE_BRANCH_HEAD s tid ns c)"
  shows "P (fst (put_steps sd s1 pc cid cp u))"
proof -
  have p3: "P (fst (put_blobs (put_parent s1 pc cid) cid blobs))" for blobs
    using put_blobs_keeps [where P = P, OF cs init] .
  have p4: "P (fst (put_branch (fst (put_blobs (put_parent s1 pc cid) cid blobs)) tid ns cid u))"
    for blobs tid ns
    using put_branch_keeps [where P = P, OF p3 mb hd] .
  show ?thesis
  proof (cases rule: put_steps_cases [of sd cp s1 pc cid u])
    case (dump_fail e)
    then show ?thesis using init by simp
  next
    case (blob_fail blobs s3 e)
    then show ?thesis using p3 [of blobs] by simp
  next
    case (branch_fail blobs s3 s4 e)
    then show ?thesis using p4 [of blobs "threadId pc" "checkpointNs pc"] by simp
  next
    case (complete blobs s3 s4)
    then show ?thesis using p4 [of blobs "threadId pc" "checkpointNs pc"] by simp
  qed
qed

lemma consistent_upsert_channel_state:
  "consistent s \<Longrightarrow> consistent (CYPHER_UPSERT_CHANNEL_STATE s c ch ver ty b)"
  unfolding consistent_def
  using fresh_mono(2) [of s c ch ver ty b]
  by (auto intro: inv_threads_cong inv_branches_cong inv_history_cong)

lemma consistent_create_main_branch:
  assumes "consistent s" and "CYPHER_CREATE_MAIN_BRANCH s tid ns bid = Inr s'"
  shows "consistent s'"
  unfolding consistent_def
proof (intro conjI)
  show "inv_threads s'"
    using assms(1) create_main_branch_frame(2) [OF assms(2)]
    by (auto simp: consistent_def intro: inv_threads_cong)
  show "inv_branches s'"
    using assms by (auto simp: consistent_def intro: inv_branches_create_main)
  show "inv_history s'"
    using assms(1) create_main_branch_frame [OF assms(2)] fresh_mono(3) [OF assms(2)]
    by (auto simp: consistent_def intro: inv_history_cong)
qed

lemma consistent_update_branch_head:
  "consistent s \<Longrightarrow> consistent (CYPHER_UPDATE_BRANCH_HEAD s tid ns c)"
  unfolding consistent_def
  by (auto intro: inv_threads_cong inv_branches_cong inv_history_cong)

lemma consistent_put: "consistent s \<Longrightarrow> consistent (fst (put sd s cfg cp md nv u))"
proof (cases rule: put_cases [of sd s cfg cp md nv u])
  case (fail e)
  assume "consistent s"
  with fail show ?thesis by simp
next
  case (run pc ty mty sc sm cid s1)
  assume c: "consistent s"
  note frame = upsert_checkpoint_frame [OF run(5)]
  have th1: "inv_threads s1"
    using c run(5) by (auto simp: consistent_def intro: inv_threads_upsert_checkpoint)
  have br1: "inv_branches s1"
    using c frame fresh_mono(1) [OF run(5)]
    by (auto simp: consistent_def intro: inv_branches_cong)
  have h: "inv_history s" using c by (simp add: consistent_def)
  note hi1 = inv_history_upsert_checkpoint [OF h run(5)]
  have hi2: "inv_history (put_parent s1 pc cid)"
    using hi1 by (auto simp: put_parent_def inv_history_link_parent split: option.split)
  have "consistent (put_parent s1 pc cid)"
    unfolding consistent_def
    using th1 br1 hi2 by (auto intro: inv_threads_cong inv_branches_cong)
  then have "consistent (fst (put_steps sd s1 pc cid cp u))"
    by (rule put_steps_keeps_from_parent)
      (auto intro: consistent_upsert_channel_state consistent_create_main_branch
         consistent_update_branch_head)
  with run(6) show ?thesis by simp
qed

lemma put_write_records_keeps:
  assumes "\<And>s c task path i ch ty b. P s \<Longrightarrow> P (CYPHER_UPSERT_WRITE s c task path i ch ty b)"
  shows "P s \<Longrightarrow> P (fst (put_write_records s cid rs))"
  by (induction rs arbitrary: s) (auto simp: assms split: option.split)

lemma consistent_upsert_write:
  "consistent s \<Longrightarrow> consistent (CYPHER_UPSERT_WRITE s c task path i ch ty b)"
  unfolding consistent_def
  using fresh_mono(4) [of s c task path i ch ty b]
  by (auto intro: inv_threads_cong inv_branches_cong inv_history_cong)

lemma consistent_putWrites:
  assumes "consistent s"
  shows "consistent (fst (putWrites sd s cfg writes task))"
proof -
  have "consistent (fst (put_write_records s cid rs))" for cid rs
    using assms by (rule put_write_records_keeps [rotated]) (rule consistent_upsert_write)
  with assms show ?thesis
    by (auto simp: putWrites_def split: sum.split option.split)
qed

lemma consistent_detach: "consistent s \<Longrightarrow> consistent (detach_delete d s)"
  by (simp add: consistent_def inv_threads_detach inv_branches_detach inv_history_detach)

lemma consistent_deleteThread: "consistent s \<Longrightarrow> consistent (deleteThread s tid)"
proof -
  assume "consistent s"
  then have "consistent (CYPHER_DELETE_THREAD s tid)"
    by (simp add: CYPHER_DELETE_THREAD_def Let_def consistent_detach)
  then show ?thesis
    unfolding consistent_def deleteThread_def CYPHER_DELETE_ORPHAN_CHANNEL_STATES_def
    by (auto intro: inv_threads_cong inv_branches_cong inv_history_cong)
qed

lemma consistent_create_branch:
  assumes "consistent s" and "CYPHER_CREATE_BRANCH s tid ns bid name fork = Inr (s', k)"
  shows "consistent s'"
  unfolding consistent_def
proof (intro conjI)
  show "inv_threads s'"
    using assms(1) create_branch_frame(2) [OF assms(2)]
    by (auto simp: consistent_def intro: inv_threads_cong)
  show "inv_branches s'"
    using assms by (auto simp: consistent_def intro: inv_branches_create_branch)
  show "inv_history s'"
    using assms(1) create_branch_frame [OF assms(2)] fresh_mono(5) [OF assms(2)]
    by (auto simp: consistent_def intro: inv_history_cong)
qed

lemma consistent_set_active:
  "consistent s \<Longrightarrow> consistent (fst (CYPHER_SET_ACTIVE_BRANCH s tid ns bid))"
  unfolding consistent_def
  by (auto intro: inv_threads_cong inv_history_cong inv_branches_set_active)

lemma consistent_empty: "consistent (empty_store True)"
  by (simp add: consistent_def inv_threads_def inv_branches_def inv_history_def empty_store_def)

lemma reachable_consistent: "reachable sd s \<Longrightarrow> consistent s"
proof (induction rule: reachable.induct)
  case start
  show ?case by (rule consistent_empty)
next
  case (put s cfg cp md nv uuid)
  then show ?case by (simp add: consistent_put)
next
  case (putWrites s cfg writes task)
  then show ?case by (simp add: consistent_putWrites)
next
  case (deleteThread s tid)
  then show ?case by (simp add: consistent_deleteThread)
next
  case (createBranch s tid ns bid name fork s' k)
  then show ?case by (auto intro: consistent_create_branch)
next
  case (setActiveBranch s tid ns bid)
  then show ?case by (simp add: consistent_set_active)
next
  case (deleteBranch s bid)
  then show ?case by (simp add: CYPHER_DELETE_BRANCH_def consistent_detach)
qed

subsection \<open>Listing\<close>

lemma order_desc_keys:
  assumes "distinct (map (\<lambda>(c, ck). cp_checkpoint_id ck) cs)"
  shows "sorted_wrt (\<lambda>a b. b < a) (map (\<lambda>(c, ck). cp_checkpoint_id ck) (order_desc cs))"
    and "set (order_desc cs) = set cs"
proof -
  let ?f = "\<lambda>(c, ck). cp_checkpoint_id ck"
  have "sorted (map ?f (sort_key ?f cs))" by (rule sorted_sort_key)
  moreover have "distinct (map ?f (sort_key ?f cs))"
    using assms by (metis distinct_map distinct_sort set_sort)
  ultimately have "sorted_wrt (<) (map ?f (sort_key ?f cs))"
    by (simp add: strict_sorted_iff)
  then show "sorted_wrt (\<lambda>a b. b < a) (map ?f (order_desc cs))"
    by (simp add: order_desc_def rev_map [symmetric] sorted_wrt_rev)
  show "set (order_desc cs) = set cs"
    by (simp add: order_desc_def)
qed

lemma take_closed_upwards:
  assumes "sorted_wrt (\<lambda>a b. b < a) (xs :: string list)"
    and "i \<in> set (take m xs)" and "j \<in> set xs" and "i \<le> j"
  shows "j \<in> set (take m xs)"
proof (rule ccontr)
  assume "j \<notin> set (take m xs)"
  with assms(3) have "j \<in> set (drop m xs)"
    by (metis Un_iff append_take_drop_id set_append)
  moreover have "sorted_wrt (\<lambda>a b. b < a) (take m xs @ drop m xs)"
    using assms(1) by simp
  ultimately have "j < i"
    using assms(2) unfolding sorted_wrt_append by blast
  with assms(4) show False by simp
qed

lemma targets_length: "length (targets es ns a) \<le> length (out_of es a)"
proof -
  have "length (concat (map (\<lambda>n. case node_of ns n of None \<Rightarrow> [] | Some x \<Rightarrow> [(n, x)]) l)) \<le> length l"
    for l
    by (induction l) (auto split: option.split)
  then show ?thesis by (simp add: targets_def)
qed

lemma one_parent:
  assumes "inv_history s"
  shows "length (optional (targets (PREVIOUS s) (Checkpoints s) c)) = 1"
proof -
  have "length (out_of (PREVIOUS s) c) \<le> 1"
    using assms by (intro out_of_le1) (simp add: inv_history_def)
  with targets_length [of "PREVIOUS s" "Checkpoints s" c]
  have "length (targets (PREVIOUS s) (Checkpoints s) c) \<le> 1" by simp
  then show ?thesis
    using length_le1_cases [of "targets (PREVIOUS s) (Checkpoints s) c"]
    by (auto simp: optional_def)
qed

lemma checkpoint_records_ids:
  assumes "inv_history s"
  shows "map cr_checkpoint_id (checkpoint_records s tid ns cs) =
     map (\<lambda>(c, ck). cp_checkpoint_id ck) cs"
proof (induction cs)
  case Nil
  show ?case by (simp add: checkpoint_records_def)
next
  case (Cons x cs)
  obtain c ck where x: "x = (c, ck)" by (cases x)
  from one_parent [OF assms, of c] obtain p where
    "optional (targets (PREVIOUS s) (Checkpoints s) c) = [p]"
    by (metis One_nat_def length_0_conv length_Suc_conv)
  with Cons show ?case
    by (simp add: checkpoint_records_def x)
qed

lemma list_yield_ids:
  "list_yield sd rs = (ts, e) \<Longrightarrow>
     yielded_ids ts = take (length ts) (map cr_checkpoint_id rs) \<and>
     length ts \<le> length rs \<and> (e = None \<longrightarrow> length ts = length rs)"
proof (induction rs arbitrary: ts e)
  case Nil
  then show ?case by (simp add: yielded_ids_def)
next
  case (Cons r rs)
  show ?case
  proof (cases "makeCheckpointTuple sd r [] []")
    case (Inl err)
    with Cons.prems show ?thesis by (auto simp: yielded_ids_def)
  next
    case (Inr t)
    obtain ts' e' where rest: "list_yield sd rs = (ts', e')" by (cases "list_yield sd rs")
    have id: "checkpoint_id (t_config t) = Some (cr_checkpoint_id r)"
      using Inr by (auto simp: makeCheckpointTuple_def andThen_def split: sum.splits)
    from Cons.prems Inr rest have "ts = t # ts'" "e = e'" by simp_all
    with Cons.IH [OF rest] id show ?thesis
      by (simp add: yielded_ids_def)
  qed
qed

lemma thread_ids_distinct:
  assumes "consistent s"
  shows "distinct (thread_ids s tid ns)"
proof -
  have th: "inv_threads s" and hi: "inv_history s"
    using assms by (simp_all add: consistent_def)
  have one: "distinct (map (\<lambda>(c, ck). cp_checkpoint_id ck) (targets (HAS_CHECKPOINT s) (Checkpoints s) t))"
    for t
  proof -
    have "distinct (map fst (targets (HAS_CHECKPOINT s) (Checkpoints s) t))"
      using hi by (intro targets_distinct) (simp add: inv_history_def)
    then have d: "distinct (targets (HAS_CHECKPOINT s) (Checkpoints s) t)"
      by (rule distinct_map [THEN iffD1, THEN conjunct1])
    have sub: "set (targets (HAS_CHECKPOINT s) (Checkpoints s) t) \<subseteq> set (Checkpoints s)"
      using targets_mem by fastforce
    have "inj_on (\<lambda>(c, ck). cp_checkpoint_id ck) (set (Checkpoints s))"
      using hi by (simp add: inv_history_def distinct_map)
    then have "inj_on (\<lambda>(c, ck). cp_checkpoint_id ck) (set (targets (HAS_CHECKPOINT s) (Checkpoints s) t))"
      using sub by (rule inj_on_subset)
    with d show ?thesis by (simp add: distinct_map)
  qed
  consider "match_thread s tid ns = []" | t where "match_thread s tid ns = [t]"
    using length_le1_cases [OF match_thread_le1 [OF th, of tid ns]] by blast
  then show ?thesis
    using one by cases (simp_all add: thread_ids_def thread_checkpoints_def)
qed


lemma list_checkpoints_ids:
  assumes con: "consistent s" and cfg: "parseConfig cfg = Inr pc"
    and bef: "list_before options = Inr beforeId" and lim: "0 \<le> list_limit options"
  shows "\<exists>K m. sorted_wrt (\<lambda>a b. b < a) K \<and>
     set K = {i \<in> set (thread_ids s (threadId pc) (checkpointNs pc)). before_cursor beforeId i} \<and>
     yielded_ids (fst (list_checkpoints sd s cfg options)) = take m K \<and>
     m \<le> nat (list_limit options) \<and>
     (snd (list_checkpoints sd s cfg options) = None \<longrightarrow>
        m = nat (list_limit options) \<or> length K \<le> m)"
proof -
  let ?key = "\<lambda>(c, ck). cp_checkpoint_id ck"
  let ?adm = "\<lambda>(c, ck). case beforeId of None \<Rightarrow> True | Some b \<Rightarrow> cp_checkpoint_id ck < b"
  define A where "A = filter ?adm (thread_checkpoints s (threadId pc) (checkpointNs pc))"
  define K where "K = map ?key (order_desc A)"
  define L where "L = take (nat (list_limit options)) (order_desc A)"
  have hi: "inv_history s" using con by (simp add: consistent_def)
  have keyA: "map ?key A = filter (before_cursor beforeId) (thread_ids s (threadId pc) (checkpointNs pc))"
    unfolding A_def thread_ids_def filter_map
    by (rule arg_cong [where f = "map ?key"], rule filter_cong)
       (auto simp: before_cursor_def split: option.split)
  have dA: "distinct (map ?key A)"
    unfolding keyA using thread_ids_distinct [OF con] by simp
  note od = order_desc_keys [OF dA]
  have sK: "sorted_wrt (\<lambda>a b. b < a) K"
    unfolding K_def by (rule od(1))
  have setK: "set K = {i \<in> set (thread_ids s (threadId pc) (checkpointNs pc)). before_cursor beforeId i}"
  proof -
    have "set K = set (map ?key A)"
      unfolding K_def using od(2) by (metis set_map)
    then show ?thesis by (simp add: keyA)
  qed
  have recs: "CYPHER_LIST_CHECKPOINTS s (threadId pc) (checkpointNs pc) beforeId (list_limit options) =
      Inr (checkpoint_records s (threadId pc) (checkpointNs pc) L)"
    using lim by (simp add: CYPHER_LIST_CHECKPOINTS_def L_def A_def)
  have idsL: "map cr_checkpoint_id (checkpoint_records s (threadId pc) (checkpointNs pc) L) =
      take (nat (list_limit options)) K"
    by (simp add: checkpoint_records_ids [OF hi] L_def K_def take_map)
  obtain ts e where y: "list_yield sd (checkpoint_records s (threadId pc) (checkpointNs pc) L) = (ts, e)"
    by (cases "list_yield sd (checkpoint_records s (threadId pc) (checkpointNs pc) L)")
  have res: "list_checkpoints sd s cfg options = (ts, e)"
    by (simp add: list_checkpoints_def cfg bef recs y)
  have lenL: "length (checkpoint_records s (threadId pc) (checkpointNs pc) L) =
      length (take (nat (list_limit options)) K)"
    using arg_cong [OF idsL, of length] by simp
  note yi = list_yield_ids [OF y, unfolded idsL lenL]
  have ids: "yielded_ids ts = take (length ts) (take (nat (list_limit options)) K)"
    and le: "length ts \<le> length (take (nat (list_limit options)) K)"
    and full: "e = None \<longrightarrow> length ts = length (take (nat (list_limit options)) K)"
    using yi by blast+
  define m where "m = min (length ts) (nat (list_limit options))"
  have "yielded_ids ts = take m K"
    by (simp add: ids m_def)
  moreover have "m \<le> nat (list_limit options)"
    by (simp add: m_def)
  moreover have "e = None \<longrightarrow> m = nat (list_limit options) \<or> length K \<le> m"
    using full by (auto simp: m_def min_def)
  ultimately show ?thesis
    using sK setK by (auto simp: res)
qed

lemma list_yielded_prefix:
  assumes "reachable sd s" and "parseConfig cfg = Inr pc"
    and "list_before options = Inr beforeId"
  shows "sorted_wrt (\<lambda>a b. b < a) (yielded_ids (fst (list_checkpoints sd s cfg options))) \<and>
     (\<forall>i \<in> set (yielded_ids (fst (list_checkpoints sd s cfg options))).
        i \<in> set (thread_ids s (threadId pc) (checkpointNs pc)) \<and> before_cursor beforeId i) \<and>
     length (yielded_ids (fst (list_checkpoints sd s cfg options))) \<le> nat (list_limit options) \<and>
     (\<forall>j \<in> set (thread_ids s (threadId pc) (checkpointNs pc)).
        before_cursor beforeId j \<and>
        (\<exists>i \<in> set (yielded_ids (fst (list_checkpoints sd s cfg options))). i \<le> j) \<longrightarrow>
        j \<in> set (yielded_ids (fst (list_checkpoints sd s cfg options)))) \<and>
     (snd (list_checkpoints sd s cfg options) = None \<and>
      length (yielded_ids (fst (list_checkpoints sd s cfg options))) < nat (list_limit options) \<longrightarrow>
        (\<forall>j \<in> set (thread_ids s (threadId pc) (checkpointNs pc)).
           before_cursor beforeId j \<longrightarrow>
           j \<in> set (yielded_ids (fst (list_checkpoints sd s cfg options))))) \<and>
     list_limit None = 100 \<and> list_limit (Some \<lparr>opt_limit = None, opt_before = b\<rparr>) = 100"
proof (cases "0 \<le> list_limit options")
  case False
  then have "list_checkpoints sd s cfg options = ([], Some (StoreError InvalidLimit))"
    using assms(2,3) by (simp add: list_checkpoints_def CYPHER_LIST_CHECKPOINTS_def)
  then show ?thesis
    by (simp add: yielded_ids_def list_limit_def)
next
  case True
  have con: "consistent s" using assms(1) by (rule reachable_consistent)
  from list_checkpoints_ids [OF con assms(2,3) True, of sd] obtain K m where
    sK: "sorted_wrt (\<lambda>a b. b < a) K"
    and setK: "set K = {i \<in> set (thread_ids s (threadId pc) (checkpointNs pc)). before_cursor beforeId i}"
    and ids: "yielded_ids (fst (list_checkpoints sd s cfg options)) = take m K"
    and m: "m \<le> nat (list_limit options)"
    and full: "snd (list_checkpoints sd s cfg options) = None \<longrightarrow>
        m = nat (list_limit options) \<or> length K \<le> m"
    by (elim exE conjE)
  have c1: "sorted_wrt (\<lambda>a b. b < a) (take m K)"
    using sK by simp
  have c2: "\<forall>i \<in> set (take m K).
        i \<in> set (thread_ids s (threadId pc) (checkpointNs pc)) \<and> before_cursor beforeId i"
    using setK in_set_takeD [of _ m K] by blast
  have c3: "length (take m K) \<le> nat (list_limit options)"
    using m by simp
  have c4: "\<forall>j \<in> set (thread_ids s (threadId pc) (checkpointNs pc)).
        before_cursor beforeId j \<and> (\<exists>i \<in> set (take m K). i \<le> j) \<longrightarrow> j \<in> set (take m K)"
    using take_closed_upwards [OF sK] setK by blast
  have c5: "\<forall>j \<in> set (thread_ids s (threadId pc) (checkpointNs pc)).
           before_cursor beforeId j \<longrightarrow> j \<in> set (take m K)"
    if "snd (list_checkpoints sd s cfg options) = None"
      and "length (take m K) < nat (list_limit options)"
  proof -
    from that full have "length K \<le> m" by auto
    then have "take m K = K" by simp
    with setK show ?thesis by simp
  qed
  have c6: "list_limit None = 100"
    and c7: "list_limit (Some \<lparr>opt_limit = None, opt_before = b\<rparr>) = 100"
    by (simp_all add: list_limit_def)
  show ?thesis
    unfolding ids
    by (intro conjI impI c1 c2 c3 c4 c6 c7) (rule c5, simp_all)
qed

subsection \<open>Switching the active branch\<close>

lemma set_active_swap:
  assumes br: "inv_branches s" and t: "match_thread s tid ns = [t]"
    and b: "(b, bk) \<in> set (targets (HAS_BRANCH s) (Branches s) t)" and id: "b_branch_id bk = bid"
  shows "CYPHER_SET_ACTIVE_BRANCH s tid ns bid =
     (s\<lparr>ACTIVE_BRANCH := filter (\<lambda>(a, x). a \<noteq> t) (ACTIVE_BRANCH s) @ [(t, b)]\<rparr>, 1)"
proof -
  have "length (out_of (ACTIVE_BRANCH s) t) \<le> 1"
    using br by (intro out_of_le1) (simp add: inv_branches_def)
  then have opt: "map (\<lambda>old. t) (optional (out_of (ACTIVE_BRANCH s) t)) = [t]"
    using length_le1_cases [of "out_of (ACTIVE_BRANCH s) t"] by (auto simp: optional_def)
  define F where "F = filter (\<lambda>(b, bk). b_branch_id bk = bid) (targets (HAS_BRANCH s) (Branches s) t)"
  have mem: "(b, bk) \<in> set F"
    using b id by (simp add: F_def)
  have "length F \<le> 1"
    unfolding F_def by (rule set_active_pairs_le1 [OF br])
  with mem have F: "F = [(b, bk)]"
    using length_le1_cases [of F] by auto
  show ?thesis
    using t opt F by (simp add: CYPHER_SET_ACTIVE_BRANCH_def Let_def F_def [symmetric])
qed


lemma set_active_unknown:
  assumes "\<forall>t \<in> set (match_thread s tid ns).
     filter (\<lambda>(b, bk). b_branch_id bk = bid) (targets (HAS_BRANCH s) (Branches s) t) = []"
  shows "CYPHER_SET_ACTIVE_BRANCH s tid ns bid =
     (s\<lparr>ACTIVE_BRANCH := filter (\<lambda>(t, b). t \<notin> set (match_thread s tid ns)) (ACTIVE_BRANCH s)\<rparr>, 0)"
proof -
  define rows where "rows = concat (map (\<lambda>t. map (\<lambda>old. t) (optional (out_of (ACTIVE_BRANCH s) t)))
      (match_thread s tid ns))"
  have sub: "set rows \<subseteq> set (match_thread s tid ns)"
    unfolding rows_def by auto
  have "concat (map (\<lambda>t. map (\<lambda>(b, bk). (t, b))
           (filter (\<lambda>(b, bk). b_branch_id bk = bid) (targets (HAS_BRANCH s) (Branches s) t))) rows) = []"
    using sub assms by (induction rows) auto
  then show ?thesis
    by (simp add: CYPHER_SET_ACTIVE_BRANCH_def Let_def rows_def [symmetric])
qed

subsection \<open>The ChannelStates linked to a checkpoint agree with it\<close>

lemma load_dump_checkpoint:
  assumes "serde_round_trip sd" and "dumpCheckpoint sd cp = Inr (ty, Some sc)"
  shows "loadCheckpoint sd ty sc = Inr cp"
proof -
  from assms(2) obtain t d where d: "dumpsTyped sd cp = Inr (t, d)"
    by (auto simp: dumpCheckpoint_def andThen_def split: sum.splits)
  with assms(1) obtain bytes where b: "d = Uint8Array bytes" "loadsTyped sd (JStr t) bytes = Inr cp"
    unfolding serde_round_trip_def by blast
  from assms(2) d b(1) have sc: "sc = serde_wrapper t bytes"
    by (simp add: dumpCheckpoint_def)
  show ?thesis
    by (simp add: loadCheckpoint_def sc serde_wrapper_def has_marker_def load_wrapped_def
        hexToBytes_bytesToHex b(2))
qed

lemma inv_links_mono:
  assumes "inv_links sd s" and "fresh s \<le> fresh s'"
    and "set (Checkpoints s') \<subseteq> set (Checkpoints s)"
    and "set (ChannelStates s') \<subseteq> set (ChannelStates s)"
    and "distinct (map fst (ChannelStates s'))"
    and "set (HAS_CHANNEL s') \<subseteq> set (HAS_CHANNEL s)"
  shows "inv_links sd s'"
  using assms unfolding inv_links_def list_all_iff
  by (intro conjI) (fastforce+)

lemma inv_links_frame:
  assumes "inv_links sd s" and "fresh s \<le> fresh s'"
    and "Checkpoints s' = Checkpoints s" and "ChannelStates s' = ChannelStates s"
    and "HAS_CHANNEL s' = HAS_CHANNEL s"
  shows "inv_links sd s'"
proof (rule inv_links_mono [OF assms(1,2)])
  show "distinct (map fst (ChannelStates s'))"
    using assms(1,4) by (simp add: inv_links_def)
qed (simp_all add: assms)

lemma inv_links_upsert_checkpoint:
  assumes inv: "inv_links sd s" and con: "constraints s"
    and run: "CYPHER_UPSERT_CHECKPOINT_SIMPLE s tid ns cid ty cp md = Inr s'"
  shows "inv_links sd s'"
proof -
  from upsert_checkpoint_result [OF con run] obtain f r where
    f: "fresh s \<le> f" "fresh s' = f + 1"
    and cps: "Checkpoints s' = Checkpoints s @
       [(f, \<lparr>cp_checkpoint_id = cid, cp_type = ty, cp_checkpoint = cp, cp_metadata = md\<rparr>)]"
    by blast
  note fr = upsert_checkpoint_frame [OF run]
  have lt: "\<And>c n. (c, n) \<in> set (HAS_CHANNEL s) \<Longrightarrow> c < fresh s \<and> n < fresh s"
    using inv by (auto simp: inv_links_def list_all_iff)
  have a: "list_all (\<lambda>(n, x). n < fresh s') (ChannelStates s')"
    using inv f by (auto simp: inv_links_def list_all_iff fr)
  have b: "list_all (\<lambda>(a, b). a < fresh s' \<and> b < fresh s') (HAS_CHANNEL s')"
    using inv f by (auto simp: inv_links_def list_all_iff fr)
  have c: "linked sd ck x"
    if "(c, n) \<in> set (HAS_CHANNEL s')" "(c, ck) \<in> set (Checkpoints s')"
      "(n, x) \<in> set (ChannelStates s')" for c n ck x
  proof -
    from that(1) have "c < fresh s" using lt by (simp add: fr)
    with that(2) f(1) have "(c, ck) \<in> set (Checkpoints s)"
      by (auto simp: cps)
    with that(1,3) inv show ?thesis
      unfolding inv_links_def fr by blast
  qed
  show ?thesis
    unfolding inv_links_def using a b c inv by (auto simp: fr inv_links_def)
qed

lemma inv_links_upsert_channel_state:
  assumes inv: "inv_links sd s"
    and cps: "\<forall>(c, ck) \<in> set (Checkpoints s). c \<in> set (match_checkpoint s cid) \<longrightarrow>
        (\<exists>cp. loadCheckpoint sd (cp_type ck) (cp_checkpoint ck) = Inr cp \<and>
           ver = channel_version (channel_versions_of cp) ch)"
    and lt: "list_all (\<lambda>(n, c). n < fresh s) (Checkpoints s)"
  shows "inv_links sd (CYPHER_UPSERT_CHANNEL_STATE s cid ch ver ty blob)"
proof (cases "match_checkpoint s cid = []")
  case True
  then show ?thesis using inv by (simp add: CYPHER_UPSERT_CHANNEL_STATE_def)
next
  case rows: False
  let ?s' = "CYPHER_UPSERT_CHANNEL_STATE s cid ch ver ty blob"
  have old: "\<And>n x. (n, x) \<in> set (ChannelStates s) \<Longrightarrow> n < fresh s"
    and oldl: "\<And>c n. (c, n) \<in> set (HAS_CHANNEL s) \<Longrightarrow> c < fresh s \<and> n < fresh s"
    and dist: "distinct (map fst (ChannelStates s))"
    and link: "\<And>c n ck x. (c, n) \<in> set (HAS_CHANNEL s) \<Longrightarrow> (c, ck) \<in> set (Checkpoints s) \<Longrightarrow>
        (n, x) \<in> set (ChannelStates s) \<Longrightarrow> linked sd ck x"
    using inv unfolding inv_links_def list_all_iff by blast+
  have mc: "\<And>c. c \<in> set (match_checkpoint s cid) \<Longrightarrow> c < fresh s"
    using lt by (auto simp: match_checkpoint_def list_all_iff)
  show ?thesis
  proof (cases "match_channel_state s ch ver = []")
    case True
    have cs: "ChannelStates ?s' = ChannelStates s @
        [(fresh s, \<lparr>cs_channel = ch, cs_version = ver, cs_type = ty, cs_blob = blob\<rparr>)]"
      and hc: "HAS_CHANNEL ?s' = HAS_CHANNEL s @ map (\<lambda>c. (c, fresh s)) (match_checkpoint s cid)"
      and fr: "fresh ?s' = Suc (fresh s)"
      using rows True by (simp_all add: CYPHER_UPSERT_CHANNEL_STATE_def Let_def)
    have a: "list_all (\<lambda>(n, x). n < fresh ?s') (ChannelStates ?s')"
      using old by (auto simp: cs fr list_all_iff less_Suc_eq)
    have b: "distinct (map fst (ChannelStates ?s'))"
      using dist old by (fastforce simp: cs)
    have c: "list_all (\<lambda>(a, b). a < fresh ?s' \<and> b < fresh ?s') (HAS_CHANNEL ?s')"
      using oldl mc by (auto simp: hc fr list_all_iff less_Suc_eq)
    have d: "linked sd ck x"
      if "(c, n) \<in> set (HAS_CHANNEL ?s')" "(c, ck) \<in> set (Checkpoints ?s')"
        "(n, x) \<in> set (ChannelStates ?s')" for c n ck x
    proof (cases "(c, n) \<in> set (HAS_CHANNEL s)")
      case True
      then have "n < fresh s" using oldl by blast
      with that(3) have "(n, x) \<in> set (ChannelStates s)" by (auto simp: cs)
      with True that(2) show ?thesis using link by simp
    next
      case False
      with that(1) have c: "c \<in> set (match_checkpoint s cid)" and n: "n = fresh s"
        by (auto simp: hc)
      from that(3) n old have x: "x = \<lparr>cs_channel = ch, cs_version = ver, cs_type = ty, cs_blob = blob\<rparr>"
        by (auto simp: cs)
      from cps that(2) c show ?thesis
        by (auto simp: linked_def x)
    qed
    show ?thesis
      unfolding inv_links_def using a b c d by blast
  next
    case False
    have cs: "ChannelStates ?s' = ChannelStates s"
      and hc: "HAS_CHANNEL ?s' = HAS_CHANNEL s @
          concat (map (\<lambda>c. map (\<lambda>x. (c, x)) (match_channel_state s ch ver)) (match_checkpoint s cid))"
      and fr: "fresh ?s' = fresh s"
      using rows False by (simp_all add: CYPHER_UPSERT_CHANNEL_STATE_def Let_def)
    have ms: "\<And>n. n \<in> set (match_channel_state s ch ver) \<Longrightarrow>
        \<exists>x. (n, x) \<in> set (ChannelStates s) \<and> cs_channel x = ch \<and> cs_version x = ver"
      by (auto simp: match_channel_state_def)
    have c: "list_all (\<lambda>(a, b). a < fresh ?s' \<and> b < fresh ?s') (HAS_CHANNEL ?s')"
      using oldl mc ms old by (fastforce simp: hc fr list_all_iff)
    have d: "linked sd ck x"
      if "(c, n) \<in> set (HAS_CHANNEL ?s')" "(c, ck) \<in> set (Checkpoints ?s')"
        "(n, x) \<in> set (ChannelStates ?s')" for c n ck x
    proof (cases "(c, n) \<in> set (HAS_CHANNEL s)")
      case True
      with that(2,3) show ?thesis using link by (simp add: cs)
    next
      case False
      with that(1) have c: "c \<in> set (match_checkpoint s cid)"
        and n: "n \<in> set (match_channel_state s ch ver)"
        by (auto simp: hc)
      from ms [OF n] obtain x' where x': "(n, x') \<in> set (ChannelStates s)"
        "cs_channel x' = ch" "cs_version x' = ver" by blast
      from that(3) x'(1) dist have "x = x'"
        by (simp add: cs eq_key_imp_eq_value)
      with cps that(2) c x'(2,3) show ?thesis
        by (auto simp: linked_def)
    qed
    show ?thesis
      unfolding inv_links_def using inv c d by (auto simp: cs fr inv_links_def)
  qed
qed


lemma inv_links_put_blobs:
  assumes vers: "\<forall>b \<in> set blobs. bd_version b = channel_version (channel_versions_of cp) (bd_channel b)"
    and cps: "\<forall>(c, ck) \<in> set (Checkpoints s). c \<in> set (match_checkpoint s cid) \<longrightarrow>
        loadCheckpoint sd (cp_type ck) (cp_checkpoint ck) = Inr cp"
    and lt: "list_all (\<lambda>(n, c). n < fresh s) (Checkpoints s)"
    and inv: "inv_links sd s"
  shows "inv_links sd (fst (put_blobs s cid blobs))"
  using assms
proof (induction blobs arbitrary: s)
  case Nil
  then show ?case by simp
next
  case (Cons b blobs)
  show ?case
  proof (cases "bd_blob b")
    case None
    with Cons.prems show ?thesis by simp
  next
    case (Some j)
    let ?s' = "CYPHER_UPSERT_CHANNEL_STATE s cid (bd_channel b) (bd_version b) (bd_type b) j"
    have v: "bd_version b = channel_version (channel_versions_of cp) (bd_channel b)"
      using Cons.prems(1) by simp
    have i: "inv_links sd ?s'"
      using Cons.prems(2) v
      by (intro inv_links_upsert_channel_state [OF Cons.prems(4) _ Cons.prems(3)]) auto
    have m: "match_checkpoint ?s' cid = match_checkpoint s cid"
      by (simp add: match_checkpoint_def)
    have l: "list_all (\<lambda>(n, c). n < fresh ?s') (Checkpoints ?s')"
      using Cons.prems(3) fresh_mono(2) [of s cid "bd_channel b" "bd_version b" "bd_type b" j]
      by (auto simp: list_all_iff)
    have v': "\<forall>b \<in> set blobs. bd_version b = channel_version (channel_versions_of cp) (bd_channel b)"
      using Cons.prems(1) by simp
    have c': "\<forall>(c, ck) \<in> set (Checkpoints ?s'). c \<in> set (match_checkpoint ?s' cid) \<longrightarrow>
        loadCheckpoint sd (cp_type ck) (cp_checkpoint ck) = Inr cp"
      unfolding m using Cons.prems(2) by simp
    have "inv_links sd (fst (put_blobs ?s' cid blobs))"
      using v' c' l i by (rule Cons.IH)
    with Some show ?thesis by simp
  qed
qed

lemma inv_links_create_main_branch:
  assumes "inv_links sd s" and run: "CYPHER_CREATE_MAIN_BRANCH s tid ns bid = Inr s'"
  shows "inv_links sd s'"
  using assms(1) fresh_mono(3) [OF run]
proof (rule inv_links_frame)
  show "Checkpoints s' = Checkpoints s" by (rule create_main_branch_frame(3) [OF run])
  show "ChannelStates s' = ChannelStates s" by (rule create_main_branch_frame(4) [OF run])
  show "HAS_CHANNEL s' = HAS_CHANNEL s" by (rule create_main_branch_frame(8) [OF run])
qed

lemma inv_links_update_branch_head:
  assumes "inv_links sd s"
  shows "inv_links sd (CYPHER_UPDATE_BRANCH_HEAD s tid ns c)"
  using assms by (rule inv_links_frame) simp_all

lemma inv_links_put_branch:
  assumes "inv_links sd s"
  shows "inv_links sd (fst (put_branch s tid ns cid u))"
  using assms
  by (auto simp: put_branch_def inv_links_update_branch_head inv_links_create_main_branch
        split: sum.split)

lemma inv_links_put:
  assumes rt: "serde_round_trip sd" and con: "consistent s" and inv: "inv_links sd s"
  shows "inv_links sd (fst (put sd s cfg cp md nv u))"
proof (cases rule: put_cases [of sd s cfg cp md nv u])
  case (fail e)
  with inv show ?thesis by simp
next
  case (run pc ty mty sc sm cid s1)
  have h: "inv_history s" using con by (simp add: consistent_def)
  then have cs: "constraints s" by (simp add: inv_history_def)
  from upsert_checkpoint_result [OF cs run(5)] obtain f r where
    f: "fresh s \<le> f" "fresh s1 = f + 1" and none: "match_checkpoint s cid = []"
    and cps: "Checkpoints s1 = Checkpoints s @
       [(f, \<lparr>cp_checkpoint_id = cid, cp_type = ty, cp_checkpoint = sc, cp_metadata = sm\<rparr>)]"
    by blast
  have old: "\<And>n c. (n, c) \<in> set (Checkpoints s) \<Longrightarrow> n < fresh s"
    using h by (auto simp: inv_history_def list_all_iff)
  have load: "loadCheckpoint sd ty sc = Inr cp"
    using rt run(3) by (rule load_dump_checkpoint)
  let ?s2 = "put_parent s1 pc cid"
  have i1: "inv_links sd s1"
    using inv cs run(5) by (rule inv_links_upsert_checkpoint)
  have i2: "inv_links sd ?s2"
    using i1 by (rule inv_links_frame) simp_all
  have m1: "match_checkpoint s1 cid = [f]"
    using none by (simp add: match_checkpoint_def cps)
  have p2: "\<forall>(c, ck) \<in> set (Checkpoints ?s2). c \<in> set (match_checkpoint ?s2 cid) \<longrightarrow>
        loadCheckpoint sd (cp_type ck) (cp_checkpoint ck) = Inr cp"
  proof -
    have "match_checkpoint ?s2 cid = [f]"
      using m1 by (simp add: match_checkpoint_def)
    moreover have "loadCheckpoint sd (cp_type ck) (cp_checkpoint ck) = Inr cp"
      if "(f, ck) \<in> set (Checkpoints s1)" for ck
      using that old [of f ck] f(1) load by (auto simp: cps)
    ultimately show ?thesis by auto
  qed
  have l2: "list_all (\<lambda>(n, c). n < fresh ?s2) (Checkpoints ?s2)"
    using old f by (fastforce simp: cps list_all_iff)
  have blobs: "inv_links sd (fst (put_blobs ?s2 cid blobs))"
    if "dumpBlobs sd (coalesce (get_prop cp ''channel_values'') (JObj []))
         (coalesce (get_prop cp ''channel_versions'') (JObj [])) = Inr blobs" for blobs
  proof -
    from that have "\<forall>b \<in> set blobs. bd_version b = channel_version (channel_versions_of cp) (bd_channel b)"
      using dumpBlobs_loop_fields by (simp add: dumpBlobs_def channel_versions_of_def)
    then show ?thesis using p2 l2 i2 by (rule inv_links_put_blobs)
  qed
  have "inv_links sd (fst (put_steps sd s1 pc cid cp u))"
  proof (cases rule: put_steps_cases [of sd cp s1 pc cid u])
    case (dump_fail e)
    with i2 show ?thesis by simp
  next
    case (blob_fail blobs s3 e)
    with blobs [OF blob_fail(1)] show ?thesis by simp
  next
    case (branch_fail blobs s3 s4 e)
    from blobs [OF branch_fail(1)] branch_fail(2) have "inv_links sd s3" by simp
    from inv_links_put_branch [OF this, of "threadId pc" "checkpointNs pc" cid u]
    show ?thesis using branch_fail(3,4) by simp
  next
    case (complete blobs s3 s4)
    from blobs [OF complete(1)] complete(2) have "inv_links sd s3" by simp
    from inv_links_put_branch [OF this, of "threadId pc" "checkpointNs pc" cid u]
    show ?thesis using complete(3,4) by simp
  qed
  with run(6) show ?thesis by simp
qed

lemma inv_links_putWrites:
  assumes "inv_links sd s"
  shows "inv_links sd (fst (putWrites sd s cfg writes task))"
proof -
  have "inv_links sd (fst (put_write_records s cid rs))" for cid rs
  proof (rule put_write_records_keeps [where P = "inv_links sd", rotated, OF assms])
    fix t :: store and c task path i ch ty b
    assume "inv_links sd t"
    then show "inv_links sd (CYPHER_UPSERT_WRITE t c task path i ch ty b)"
      using fresh_mono(4) [of t c task path i ch ty b]
      by (rule inv_links_frame) simp_all
  qed
  with assms show ?thesis
    by (auto simp: putWrites_def split: sum.split option.split)
qed

lemma inv_links_detach: "inv_links sd s \<Longrightarrow> inv_links sd (detach_delete d s)"
  by (rule inv_links_mono [of sd s])
     (auto simp: detach_delete_def without_nodes_def without_edges_def distinct_map_filter
        inv_links_def)

lemma inv_links_deleteThread: "inv_links sd s \<Longrightarrow> inv_links sd (deleteThread s tid)"
proof -
  assume "inv_links sd s"
  then have i: "inv_links sd (CYPHER_DELETE_THREAD s tid)"
    by (simp add: CYPHER_DELETE_THREAD_def Let_def inv_links_detach)
  show ?thesis
    unfolding deleteThread_def
    by (rule inv_links_mono [OF i])
       (use i in \<open>auto simp: CYPHER_DELETE_ORPHAN_CHANNEL_STATES_def distinct_map_filter
          inv_links_def\<close>)
qed

lemma reachable_links:
  assumes "serde_round_trip sd" and "reachable sd s"
  shows "inv_links sd s"
  using assms(2)
proof (induction rule: reachable.induct)
  case start
  show ?case by (simp add: inv_links_def empty_store_def)
next
  case (put s cfg cp md nv uuid)
  then show ?case
    using inv_links_put [OF assms(1) reachable_consistent] by blast
next
  case (putWrites s cfg writes task)
  then show ?case by (simp add: inv_links_putWrites)
next
  case (deleteThread s tid)
  then show ?case by (simp add: inv_links_deleteThread)
next
  case (createBranch s tid ns bid name fork s' k)
  from createBranch(3) fresh_mono(5) [OF createBranch(2)] show ?case
  proof (rule inv_links_frame)
    show "Checkpoints s' = Checkpoints s" by (rule create_branch_frame(3) [OF createBranch(2)])
    show "ChannelStates s' = ChannelStates s" by (rule create_branch_frame(4) [OF createBranch(2)])
    show "HAS_CHANNEL s' = HAS_CHANNEL s" by (rule create_branch_frame(8) [OF createBranch(2)])
  qed
next
  case (setActiveBranch s tid ns bid)
  from setActiveBranch(2) show ?case
    by (rule inv_links_frame) simp_all
next
  case (deleteBranch s bid)
  then show ?case
    by (simp add: CYPHER_DELETE_BRANCH_def inv_links_detach)
qed


lemma record_source:
  "r \<in> set (checkpoint_records s tid ns cs) \<Longrightarrow>
     \<exists>(c, ck) \<in> set cs. cr_checkpoint_id r = cp_checkpoint_id ck \<and> cr_type r = cp_type ck \<and>
        cr_checkpoint r = cp_checkpoint ck"
  by (fastforce simp: checkpoint_records_def)

lemma thread_checkpoints_stored:
  "x \<in> set (thread_checkpoints s tid ns) \<Longrightarrow> x \<in> set (Checkpoints s)"
  using targets_mem [of "fst x" "snd x" "HAS_CHECKPOINT s" "Checkpoints s"]
  by (auto simp: thread_checkpoints_def)

lemma read_record_source:
  assumes "r \<in> set (CYPHER_GET_CHECKPOINT_BY_ID s tid ns cid) \<union>
               set (CYPHER_GET_ACTIVE_BRANCH_HEAD s tid ns) \<union>
               set (CYPHER_GET_LATEST_CHECKPOINT s tid ns)"
  shows "\<exists>(c, ck) \<in> set (Checkpoints s). cr_checkpoint_id r = cp_checkpoint_id ck \<and>
     cr_type r = cp_type ck \<and> cr_checkpoint r = cp_checkpoint ck"
proof -
  have a: "set (filter (\<lambda>(c, ck). cp_checkpoint_id ck = cid) (thread_checkpoints s tid ns))
      \<subseteq> set (Checkpoints s)"
    using thread_checkpoints_stored by auto
  have b: "set (take 1 (order_desc (thread_checkpoints s tid ns))) \<subseteq> set (Checkpoints s)"
    using thread_checkpoints_stored in_set_takeD [of _ 1 "order_desc (thread_checkpoints s tid ns)"]
    by (fastforce simp: order_desc_def)
  have c: "set (concat (map (\<lambda>t.
          concat (map (\<lambda>(b, bk). targets (HEAD s) (Checkpoints s) b)
                      (targets (ACTIVE_BRANCH s) (Branches s) t)))
          (match_thread s tid ns))) \<subseteq> set (Checkpoints s)"
    using targets_mem [of _ _ "HEAD s" "Checkpoints s"] by fastforce
  from assms a b c record_source [of r s tid ns] show ?thesis
    unfolding CYPHER_GET_CHECKPOINT_BY_ID_def CYPHER_GET_ACTIVE_BRANCH_HEAD_def
      CYPHER_GET_LATEST_CHECKPOINT_def
    by blast
qed

lemma index_of_Some: "index_of v xs = Some i \<Longrightarrow> i < length xs \<and> xs ! i = v"
  by (induction xs arbitrary: i) (auto split: if_splits)

lemma codebook_round_trip:
  assumes "length book \<le> 256"
  shows "serde_round_trip (codebook_serde book)"
  unfolding serde_round_trip_def
proof (intro allI impI)
  fix v ty d
  assume "dumpsTyped (codebook_serde book) v = Inr (ty, d)"
  then obtain i where i: "index_of v book = Some i" and d: "d = Uint8Array [of_nat i]"
    by (auto simp: codebook_serde_def split: option.splits)
  from index_of_Some [OF i] have lt: "i < length book" and v: "book ! i = v"
    by simp_all
  have "unat (of_nat i :: byte) = i"
    using lt assms by (simp add: unat_of_nat take_bit_nat_eq_self)
  then have "loadsTyped (codebook_serde book) (JStr ty) [of_nat i] = Inr v"
    using lt v by (simp add: codebook_serde_def)
  with d show "\<exists>bytes. d = Uint8Array bytes \<and> loadsTyped (codebook_serde book) (JStr ty) bytes = Inr v"
    by blast
qed


section \<open>The claims\<close>

subsection \<open>Classification of values\<close>

lemma json_safe_direct: "json_safe v \<Longrightarrow> isSimpleJsonSerializable v"
  by (induction v rule: isSimpleJsonSerializable.induct) (auto simp: list_all_iff)

lemma plain_classified: "plain v \<Longrightarrow> isSimpleJsonSerializable v = json_safe v"
  by (induction v rule: isSimpleJsonSerializable.induct) (auto simp: list_all_iff)

lemma dumpBlob_type:
  "dumpBlob sd vers ch v = Inr b \<Longrightarrow>
     (bd_type b = ''serde'') =
       (\<not> isSimpleJsonSerializable v \<and> (\<exists>ty bytes. dumpsTyped sd v = Inr (ty, Uint8Array bytes)))"
  by (auto simp: dumpBlob_def Let_def andThen_def split: if_splits sum.splits serde_data.splits)

text \<open>
  C9. The encoder is to classify a value as JSON-safe exactly when it is null, a
  boolean, a number, a string, or a sequence or mapping composed recursively of
  JSON-safe values with only string keys, and to store exactly these with type
  \<open>"json"\<close>. The code classifies every \<open>Map\<close> as JSON-safe, whatever its keys and
  values, and stores it on the direct path as the empty object: here a \<open>Map\<close> with a
  number as key and a function as value, which is not JSON-safe.
\<close>

theorem map_stored_as_json:
  "isSimpleJsonSerializable (JMap es) \<and>
   dumpBlob sd versions channel (JMap es) =
     Inr \<lparr>bd_channel = channel, bd_version = channel_version versions channel,
          bd_type = ''json'', bd_blob = Some (JsonObj [])\<rparr> \<and>
   \<not> json_safe (JMap [(JNum 1, JFunction)])"
  by (simp add: dumpBlob_def)

subsection \<open>The argument \<open>newVersions\<close>\<close>

text \<open>
  C10. For any two values of the argument \<open>newVersions\<close>, \<open>put\<close> writes the same
  store and returns the same result; the version of every ChannelState that \<open>put\<close>
  adds is the one that the checkpoint's own \<open>channel_versions\<close> gives for the channel.
\<close>

theorem put_ignores_newVersions:
  "put sd s cfg cp md nv1 u = put sd s cfg cp md nv2 u \<and>
   (\<forall>x \<in> set (ChannelStates (fst (put sd s cfg cp md nv1 u))) - set (ChannelStates s).
      cs_version (snd x) =
        channel_version (coalesce (get_prop cp ''channel_versions'') (JObj []))
          (cs_channel (snd x)))"
proof
  show "put sd s cfg cp md nv1 u = put sd s cfg cp md nv2 u"
    by (simp add: put_def)
  show "\<forall>x \<in> set (ChannelStates (fst (put sd s cfg cp md nv1 u))) - set (ChannelStates s).
      cs_version (snd x) =
        channel_version (coalesce (get_prop cp ''channel_versions'') (JObj []))
          (cs_channel (snd x))"
    using put_new_versions [of _ sd s cfg cp md nv1 u] by blast
qed

theorem put_ignores_newVersions_witness:
  "put sample_serde (empty_store True) thread_t1 checkpoint_c2 sample_metadata
       (JObj [(''a'', JNum 5)]) ''u1'' =
   put sample_serde (empty_store True) thread_t1 checkpoint_c2 sample_metadata JNull ''u1'' \<and>
   map (\<lambda>x. (cs_channel (snd x), cs_version (snd x)))
     (ChannelStates (fst (put sample_serde (empty_store True) thread_t1 checkpoint_c2
        sample_metadata (JObj [(''a'', JNum 5)]) ''u1''))) = [(''a'', ''1''), (''b'', ''7'')] \<and>
   channel_version (coalesce (get_prop checkpoint_c2 ''channel_versions'') (JObj [])) ''a'' = ''1'' \<and>
   channel_version (coalesce (get_prop checkpoint_c2 ''channel_versions'') (JObj [])) ''b'' = ''7''"
proof -
  have "map (\<lambda>x. (cs_channel (snd x), cs_version (snd x)))
     (ChannelStates (fst (put sample_serde (empty_store True) thread_t1 checkpoint_c2
        sample_metadata (JObj [(''a'', JNum 5)]) ''u1''))) = [(''a'', ''1''), (''b'', ''7'')]"
    by code_simp
  moreover have
    "channel_version (coalesce (get_prop checkpoint_c2 ''channel_versions'') (JObj [])) ''a'' = ''1''"
    "channel_version (coalesce (get_prop checkpoint_c2 ''channel_versions'') (JObj [])) ''b'' = ''7''"
    by code_simp+
  ultimately show ?thesis
    using put_ignores_newVersions [of sample_serde "empty_store True" thread_t1 checkpoint_c2
      sample_metadata "JObj [(''a'', JNum 5)]" "''u1''" JNull]
    by simp
qed

subsection \<open>A parent that does not resolve\<close>

text \<open>
  C4, as the specification states it: \<open>put\<close> with a parent checkpoint id that matches
  no checkpoint fails. It does not: on the empty store, \<open>put\<close> of the second sample
  checkpoint with the parent id \<open>nope\<close> returns its configuration, and the store has no
  \<open>PREVIOUS\<close> relationship.
\<close>

theorem put_missing_parent_completes:
  "snd (put sample_serde (empty_store True) (thread_t1\<lparr>checkpoint_id := Some ''nope''\<rparr>)
          checkpoint_c2 sample_metadata JNull ''u1'') =
     Inr \<lparr>thread_id = Some ''t1'', checkpoint_ns = Some [], checkpoint_id = Some ''c2''\<rparr> \<and>
   PREVIOUS (fst (put sample_serde (empty_store True) (thread_t1\<lparr>checkpoint_id := Some ''nope''\<rparr>)
          checkpoint_c2 sample_metadata JNull ''u1'')) = []"
  by code_simp

text \<open>
  C4, amended: \<open>put\<close> with a parent checkpoint id that matches no checkpoint of the
  store, and that is not the id of the new checkpoint, does what \<open>put\<close> without a
  parent id does: the same store, with no \<open>PREVIOUS\<close> relationship added, and the
  same result, with no error for the missing parent.
\<close>

theorem put_unresolved_parent:
  assumes "match_checkpoint s p = []" and "as_string (get_prop cp ''id'') \<noteq> Inr p"
  shows "put sd s (cfg\<lparr>checkpoint_id := Some p\<rparr>) cp md nv u =
         put sd s (cfg\<lparr>checkpoint_id := None\<rparr>) cp md nv u"
proof -
  have steps: "put_steps sd s1 (pc\<lparr>checkpointId := Some p\<rparr>) cid cp u =
               put_steps sd s1 (pc\<lparr>checkpointId := None\<rparr>) cid cp u"
    if "CYPHER_UPSERT_CHECKPOINT_SIMPLE s tid ns cid ty sc sm = Inr s1" and "cid \<noteq> p"
    for s1 pc cid tid ns ty sc sm
  proof -
    have "match_checkpoint s1 p = []"
      using upsert_checkpoint_matches(2) [OF that(1), of p] that(2) assms(1) by simp
    then have "put_parent s1 (pc\<lparr>checkpointId := Some p\<rparr>) cid = s1"
      by (simp add: put_parent_def link_parent_unresolved)
    from put_steps_no_parent [OF this] show ?thesis by simp
  qed
  show ?thesis
    using assms(2)
    by (auto simp: put_def parseConfig_parent steps split: sum.split option.split prod.split)
qed

theorem put_unresolved_parent_witness:
  "match_checkpoint (empty_store True) ''nope'' = [] \<and>
   as_string (get_prop checkpoint_c2 ''id'') \<noteq> Inr ''nope'' \<and>
   put sample_serde (empty_store True) (thread_t1\<lparr>checkpoint_id := Some ''nope''\<rparr>)
     checkpoint_c2 sample_metadata JNull ''u1'' =
   put sample_serde (empty_store True) (thread_t1\<lparr>checkpoint_id := None\<rparr>)
     checkpoint_c2 sample_metadata JNull ''u1''"
proof -
  have h1: "match_checkpoint (empty_store True) ''nope'' = []"
    by (simp add: match_checkpoint_def empty_store_def)
  have h2: "as_string (get_prop checkpoint_c2 ''id'') \<noteq> Inr ''nope''"
    by (simp add: checkpoint_c2_def)
  show ?thesis
    using h1 h2 put_unresolved_parent [OF h1 h2] by simp
qed

subsection \<open>Retrying \<open>put\<close>\<close>

text \<open>
  C3. A \<open>put\<close> that is retried with the same checkpoint id is to complete, the
  duplicate id being taken as already written. With the constraints of \<open>setup()\<close> in
  place, the retry of a \<open>put\<close> that has completed is rejected by the database with a
  constraint violation, which \<open>put\<close> passes on to the caller; the store stays as the
  first \<open>put\<close> left it.
\<close>

theorem put_retry_rejected:
  assumes con: "constraints s" and ok: "put sd s cfg cp md nv u = (s', Inr r)"
  shows "put sd s' cfg cp md nv' u' = (s', Inl (StoreError ConstraintViolation))"
proof (cases rule: put_cases [of sd s cfg cp md nv u])
  case (fail e)
  with ok show ?thesis by simp
next
  case (run pc ty mty sc sm cid s1)
  have s': "s' = fst (put_steps sd s1 pc cid cp u)"
    using ok run(6) by simp
  have "match_checkpoint s' cid \<noteq> []"
    using upsert_checkpoint_matches(1) [OF run(5)] by (simp add: s' match_checkpoint_def)
  moreover have "constraints s'"
    using con upsert_checkpoint_frame(1) [OF run(5)] by (simp add: s')
  ultimately have "CYPHER_UPSERT_CHECKPOINT_SIMPLE s' (threadId pc) (checkpointNs pc) cid ty sc sm =
      Inl ConstraintViolation"
    by (simp add: CYPHER_UPSERT_CHECKPOINT_SIMPLE_def Let_def)
  moreover have "\<not> nullish cp"
    using run(2) by (auto simp: nullish_def)
  ultimately show ?thesis
    using run(1-4) by (simp add: put_def)
qed

theorem put_retry_rejected_witness:
  "constraints (empty_store True) \<and>
   snd (put sample_serde (empty_store True) thread_t1 checkpoint_c2 sample_metadata JNull ''u1'') =
     Inr \<lparr>thread_id = Some ''t1'', checkpoint_ns = Some [], checkpoint_id = Some ''c2''\<rparr> \<and>
   snd (put sample_serde
          (fst (put sample_serde (empty_store True) thread_t1 checkpoint_c2 sample_metadata JNull ''u1''))
          thread_t1 checkpoint_c2 sample_metadata JNull ''u2'') =
     Inl (StoreError ConstraintViolation)"
proof -
  have h1: "constraints (empty_store True)"
    by (simp add: empty_store_def)
  have h2: "snd (put sample_serde (empty_store True) thread_t1 checkpoint_c2 sample_metadata JNull ''u1'') =
     Inr \<lparr>thread_id = Some ''t1'', checkpoint_ns = Some [], checkpoint_id = Some ''c2''\<rparr>"
    by code_simp
  then have h3: "put sample_serde (empty_store True) thread_t1 checkpoint_c2 sample_metadata JNull ''u1'' =
     (fst (put sample_serde (empty_store True) thread_t1 checkpoint_c2 sample_metadata JNull ''u1''),
      Inr \<lparr>thread_id = Some ''t1'', checkpoint_ns = Some [], checkpoint_id = Some ''c2''\<rparr>)"
    by (metis prod.collapse)
  show ?thesis
    using h1 h2 put_retry_rejected [OF h1 h3, of JNull "''u2''"] by simp
qed


subsection \<open>Shared ChannelState nodes\<close>

text \<open>
  C7. Two \<open>put\<close> calls, one after the other, both with a value for the same channel.
  The ChannelState nodes of the first writer's channel and version are the same after
  the second \<open>put\<close> as before it, so their blob and type are never overwritten; if the
  store held none before the first \<open>put\<close>, there is one, with the first writer's type
  and blob. Each \<open>put\<close> leaves its checkpoint linked by \<open>HAS_CHANNEL\<close> to the nodes
  of its channel and version, so with the same version both checkpoints are linked to
  the same nodes. With different versions the nodes are different ones, and a version
  that was not stored gets a node with the second writer's type and blob.
\<close>

theorem channel_state_shared:
  assumes A: "put sd s cfgA cpA mdA nvA uA = (s1, Inr rA)"
    and B: "put sd s1 cfgB cpB mdB nvB uB = (s2, Inr rB)"
    and idA: "as_string (get_prop cpA ''id'') = Inr idA"
    and idB: "as_string (get_prop cpB ''id'') = Inr idB"
    and eA: "(channel, valA) \<in> set (object_entries (channel_values_of cpA))"
    and eB: "(channel, valB) \<in> set (object_entries (channel_values_of cpB))"
    and vA: "verA = channel_version (channel_versions_of cpA) channel"
    and vB: "verB = channel_version (channel_versions_of cpB) channel"
  shows
    "stored_states s1 channel verA \<noteq> [] \<and>
     stored_states s2 channel verA = stored_states s1 channel verA \<and>
     stored_states s2 channel verB \<noteq> [] \<and>
     match_checkpoint s1 idA \<noteq> [] \<and> match_checkpoint s2 idB \<noteq> [] \<and>
     (\<forall>(n, x) \<in> set (stored_states s2 channel verA).
        \<forall>c \<in> set (match_checkpoint s1 idA). (c, n) \<in> set (HAS_CHANNEL s2)) \<and>
     (\<forall>(n, x) \<in> set (stored_states s2 channel verB).
        \<forall>c \<in> set (match_checkpoint s2 idB). (c, n) \<in> set (HAS_CHANNEL s2)) \<and>
     (verA \<noteq> verB \<longrightarrow>
        set (stored_states s2 channel verA) \<inter> set (stored_states s2 channel verB) = {}) \<and>
     (stored_states s channel verA = [] \<and>
      distinct (map fst (object_entries (channel_values_of cpA))) \<longrightarrow>
        (\<exists>n b j. dumpBlob sd (channel_versions_of cpA) channel valA = Inr b \<and>
           bd_blob b = Some j \<and>
           stored_states s2 channel verA =
             [(n, \<lparr>cs_channel = channel, cs_version = verA, cs_type = bd_type b, cs_blob = j\<rparr>)])) \<and>
     (stored_states s1 channel verB = [] \<and>
      distinct (map fst (object_entries (channel_values_of cpB))) \<longrightarrow>
        (\<exists>n b j. dumpBlob sd (channel_versions_of cpB) channel valB = Inr b \<and>
           bd_blob b = Some j \<and>
           stored_states s2 channel verB =
             [(n, \<lparr>cs_channel = channel, cs_version = verB, cs_type = bd_type b, cs_blob = j\<rparr>)]))"
proof -
  note postA = put_channel_post [OF A idA eA, folded vA]
  note postB = put_channel_post [OF B idB eB, folded vB]
  have s2: "fst (put sd s1 cfgB cpB mdB nvB uB) = s2"
    using B by simp
  have keep: "stored_states s2 channel verA = stored_states s1 channel verA"
    using put_keeps_stored [OF postA(2), of sd cfgB cpB mdB nvB uB] by (simp add: s2)
  have mono: "set (HAS_CHANNEL s1) \<subseteq> set (HAS_CHANNEL s2)"
    using put_edges_mono [of s1 sd cfgB cpB mdB nvB uB] by (simp add: s2)
  have linkA: "\<forall>(n, x) \<in> set (stored_states s2 channel verA).
        \<forall>c \<in> set (match_checkpoint s1 idA). (c, n) \<in> set (HAS_CHANNEL s2)"
    using postA(3) mono unfolding keep by blast
  have apart: "set (stored_states s2 channel verA) \<inter> set (stored_states s2 channel verB) = {}"
    if "verA \<noteq> verB"
    using that by (auto simp: stored_states_def)
  have firstA: "\<exists>n b j. dumpBlob sd (channel_versions_of cpA) channel valA = Inr b \<and>
           bd_blob b = Some j \<and>
           stored_states s2 channel verA =
             [(n, \<lparr>cs_channel = channel, cs_version = verA, cs_type = bd_type b, cs_blob = j\<rparr>)]"
    if "stored_states s channel verA = []"
      and "distinct (map fst (object_entries (channel_values_of cpA)))"
    using postA(4) [OF that] unfolding keep .
  show ?thesis
    using postA(1,2) postB(1,2,3,4) keep linkA apart firstA by blast
qed

theorem channel_state_shared_witness:
  "snd (put sample_serde (empty_store True) thread_t1 checkpoint_c2 sample_metadata JNull ''u1'') =
     Inr \<lparr>thread_id = Some ''t1'', checkpoint_ns = Some [], checkpoint_id = Some ''c2''\<rparr> \<and>
   snd (put sample_serde
          (fst (put sample_serde (empty_store True) thread_t1 checkpoint_c2 sample_metadata JNull ''u1''))
          (thread_t1\<lparr>checkpoint_id := Some ''c2''\<rparr>) checkpoint_c3 sample_metadata JNull ''u2'') =
     Inr \<lparr>thread_id = Some ''t1'', checkpoint_ns = Some [], checkpoint_id = Some ''c3''\<rparr> \<and>
   stored_states
     (fst (put sample_serde
          (fst (put sample_serde (empty_store True) thread_t1 checkpoint_c2 sample_metadata JNull ''u1''))
          (thread_t1\<lparr>checkpoint_id := Some ''c2''\<rparr>) checkpoint_c3 sample_metadata JNull ''u2''))
     ''a'' ''1'' =
   stored_states
     (fst (put sample_serde (empty_store True) thread_t1 checkpoint_c2 sample_metadata JNull ''u1''))
     ''a'' ''1'' \<and>
   stored_states
     (fst (put sample_serde (empty_store True) thread_t1 checkpoint_c2 sample_metadata JNull ''u1''))
     ''a'' ''1'' =
     [(2, \<lparr>cs_channel = ''a'', cs_version = ''1'', cs_type = ''json'', cs_blob = JsonStr ''hello''\<rparr>)]"
proof -
  let ?s1 = "fst (put sample_serde (empty_store True) thread_t1 checkpoint_c2 sample_metadata JNull ''u1'')"
  let ?s2 = "fst (put sample_serde ?s1 (thread_t1\<lparr>checkpoint_id := Some ''c2''\<rparr>) checkpoint_c3
                 sample_metadata JNull ''u2'')"
  have a: "snd (put sample_serde (empty_store True) thread_t1 checkpoint_c2 sample_metadata JNull ''u1'') =
     Inr \<lparr>thread_id = Some ''t1'', checkpoint_ns = Some [], checkpoint_id = Some ''c2''\<rparr>"
    by code_simp
  have b: "snd (put sample_serde ?s1 (thread_t1\<lparr>checkpoint_id := Some ''c2''\<rparr>) checkpoint_c3
                 sample_metadata JNull ''u2'') =
     Inr \<lparr>thread_id = Some ''t1'', checkpoint_ns = Some [], checkpoint_id = Some ''c3''\<rparr>"
    by code_simp
  have A: "put sample_serde (empty_store True) thread_t1 checkpoint_c2 sample_metadata JNull ''u1'' =
     (?s1, Inr \<lparr>thread_id = Some ''t1'', checkpoint_ns = Some [], checkpoint_id = Some ''c2''\<rparr>)"
    using a by (metis prod.collapse)
  have B: "put sample_serde ?s1 (thread_t1\<lparr>checkpoint_id := Some ''c2''\<rparr>) checkpoint_c3
                 sample_metadata JNull ''u2'' =
     (?s2, Inr \<lparr>thread_id = Some ''t1'', checkpoint_ns = Some [], checkpoint_id = Some ''c3''\<rparr>)"
    using b by (metis prod.collapse)
  have idA: "as_string (get_prop checkpoint_c2 ''id'') = Inr ''c2''"
    and idB: "as_string (get_prop checkpoint_c3 ''id'') = Inr ''c3''"
    and eA: "(''a'', JStr ''hello'') \<in> set (object_entries (channel_values_of checkpoint_c2))"
    and eB: "(''a'', JStr ''bye'') \<in> set (object_entries (channel_values_of checkpoint_c3))"
    and vA: "''1'' = channel_version (channel_versions_of checkpoint_c2) ''a''"
    and vB: "''1'' = channel_version (channel_versions_of checkpoint_c3) ''a''"
    by code_simp+
  have c: "stored_states ?s1 ''a'' ''1'' =
     [(2, \<lparr>cs_channel = ''a'', cs_version = ''1'', cs_type = ''json'', cs_blob = JsonStr ''hello''\<rparr>)]"
    by code_simp
  from channel_state_shared [OF A B idA idB eA eB vA vB]
  have "stored_states ?s2 ''a'' ''1'' = stored_states ?s1 ''a'' ''1''"
    by blast
  with a b c show ?thesis by blast
qed


subsection \<open>Listing a thread\<close>

text \<open>
  C8. The configuration names the thread \<open>tid\<close> and the namespace \<open>ns\<close> (the empty one
  when it gives none); \<open>options\<close> is missing, or it has the limit \<open>lim\<close> and either no
  \<open>before\<close> or a \<open>before\<close> configuration with the checkpoint id \<open>cursor\<close>. On every
  store that the operations produce, \<open>list\<close> yields tuples of the thread's checkpoints
  in strictly descending order of checkpoint id, hence without duplicates; every
  yielded id is an id of the thread and is strictly less than the cursor when there is
  one; at most \<open>lim\<close> tuples are yielded, and at most 100 when no limit is given;
  there is no gap: every id of the thread below the cursor that is not less than some
  yielded id is yielded, and when \<open>list\<close> ends without an error with fewer tuples than
  the limit, every id of the thread below the cursor is yielded.
\<close>

theorem list_newest_first:
  assumes reach: "reachable sd s"
    and cfg: "cfg = \<lparr>thread_id = Some tid, checkpoint_ns = nso, checkpoint_id = cid\<rparr>"
    and tid: "tid \<noteq> []"
    and ns: "ns = (case nso of None \<Rightarrow> [] | Some n \<Rightarrow> n)"
    and opts: "options = None \<and> lim = None \<and> cursor = None \<or>
       options = Some \<lparr>opt_limit = lim, opt_before = None\<rparr> \<and> cursor = None \<or>
       (\<exists>btid bns. btid \<noteq> [] \<and>
          options = Some \<lparr>opt_limit = lim,
                          opt_before = Some \<lparr>thread_id = Some btid, checkpoint_ns = bns,
                                              checkpoint_id = cursor\<rparr>\<rparr>)"
    and cap: "cap = (case lim of None \<Rightarrow> 100 | Some l \<Rightarrow> nat l)"
  shows "sorted_wrt (\<lambda>a b. b < a) (yielded_ids (fst (list_checkpoints sd s cfg options))) \<and>
     (\<forall>i \<in> set (yielded_ids (fst (list_checkpoints sd s cfg options))).
        i \<in> set (thread_ids s tid ns) \<and> (\<forall>b. cursor = Some b \<longrightarrow> i < b)) \<and>
     length (yielded_ids (fst (list_checkpoints sd s cfg options))) \<le> cap \<and>
     (\<forall>j \<in> set (thread_ids s tid ns).
        (\<forall>b. cursor = Some b \<longrightarrow> j < b) \<and>
        (\<exists>i \<in> set (yielded_ids (fst (list_checkpoints sd s cfg options))). i \<le> j) \<longrightarrow>
        j \<in> set (yielded_ids (fst (list_checkpoints sd s cfg options)))) \<and>
     (snd (list_checkpoints sd s cfg options) = None \<and>
      length (yielded_ids (fst (list_checkpoints sd s cfg options))) < cap \<longrightarrow>
        (\<forall>j \<in> set (thread_ids s tid ns).
           (\<forall>b. cursor = Some b \<longrightarrow> j < b) \<longrightarrow>
           j \<in> set (yielded_ids (fst (list_checkpoints sd s cfg options)))))"
proof -
  have pc: "parseConfig cfg = Inr \<lparr>threadId = tid, checkpointNs = ns, checkpointId = cid\<rparr>"
    using tid by (simp add: parseConfig_def cfg ns)
  have lb: "list_before options = Inr cursor"
    using opts by (auto simp: list_before_def parseConfig_def)
  have ll: "nat (list_limit options) = cap"
    using opts by (auto simp: list_limit_def cap split: option.split)
  have bc: "before_cursor cursor i = (\<forall>b. cursor = Some b \<longrightarrow> i < b)" for i
    by (simp add: before_cursor_def split: option.split)
  note old = list_yielded_prefix [OF reach pc lb, unfolded ll bc ParsedConfig.simps]
  note c1 = old [THEN conjunct1]
  note c2 = old [THEN conjunct2, THEN conjunct1]
  note c3 = old [THEN conjunct2, THEN conjunct2, THEN conjunct1]
  note c4 = old [THEN conjunct2, THEN conjunct2, THEN conjunct2, THEN conjunct1]
  note c5 = old [THEN conjunct2, THEN conjunct2, THEN conjunct2, THEN conjunct2, THEN conjunct1]
  show ?thesis
    by (intro conjI c1 c2 c3 c4 c5)
qed

theorem list_newest_first_witness:
  "reachable sample_serde store_c3 \<and>
   thread_ids store_c3 ''t1'' [] = [''c2'', ''c3''] \<and>
   yielded_ids (fst (list_checkpoints sample_serde store_c3 thread_t1 None)) = [''c3'', ''c2''] \<and>
   yielded_ids (fst (list_checkpoints sample_serde store_c3 thread_t1
      (Some \<lparr>opt_limit = Some 1, opt_before = None\<rparr>))) = [''c3''] \<and>
   yielded_ids (fst (list_checkpoints sample_serde store_c3 thread_t1
      (Some \<lparr>opt_limit = None,
             opt_before = Some \<lparr>thread_id = Some ''t1'', checkpoint_ns = None,
                                 checkpoint_id = Some ''c3''\<rparr>\<rparr>))) = [''c2''] \<and>
   length (yielded_ids (fst (list_checkpoints sample_serde store_c3 thread_t1
      (Some \<lparr>opt_limit = Some 1, opt_before = None\<rparr>)))) \<le> 1 \<and>
   sorted_wrt (\<lambda>a b. b < a)
     (yielded_ids (fst (list_checkpoints sample_serde store_c3 thread_t1
        (Some \<lparr>opt_limit = None,
               opt_before = Some \<lparr>thread_id = Some ''t1'', checkpoint_ns = None,
                                   checkpoint_id = Some ''c3''\<rparr>\<rparr>)))) \<and>
   length (yielded_ids (fst (list_checkpoints sample_serde store_c3 thread_t1 None))) \<le> 100"
proof -
  let ?lim1 = "Some \<lparr>opt_limit = Some 1, opt_before = None\<rparr>"
  let ?cur = "Some \<lparr>opt_limit = None,
             opt_before = Some \<lparr>thread_id = Some ''t1'', checkpoint_ns = None,
                                 checkpoint_id = Some ''c3''\<rparr>\<rparr>"
  have r: "reachable sample_serde store_c3"
    unfolding store_c3_def store_c2_def by (intro reachable.put reachable.start)
  have i: "thread_ids store_c3 ''t1'' [] = [''c2'', ''c3'']"
    by code_simp
  have y0: "yielded_ids (fst (list_checkpoints sample_serde store_c3 thread_t1 None)) = [''c3'', ''c2'']"
    by code_simp
  have y1: "yielded_ids (fst (list_checkpoints sample_serde store_c3 thread_t1 ?lim1)) = [''c3'']"
    by code_simp
  have y2: "yielded_ids (fst (list_checkpoints sample_serde store_c3 thread_t1 ?cur)) = [''c2'']"
    by code_simp
  have cfg: "thread_t1 = \<lparr>thread_id = Some ''t1'', checkpoint_ns = None, checkpoint_id = None\<rparr>"
    by (simp add: thread_t1_def)
  have tid: "''t1'' \<noteq> []" by simp
  have ns: "[] = (case None :: string option of None \<Rightarrow> [] | Some n \<Rightarrow> n)" by simp
  have cap1: "(1 :: nat) = (case Some 1 of None \<Rightarrow> 100 | Some l \<Rightarrow> nat l)" by simp
  have cap100: "(100 :: nat) = (case None :: int option of None \<Rightarrow> 100 | Some l \<Rightarrow> nat l)" by simp
  have o0: "(None :: CheckpointListOptions option) = None \<and> (None :: int option) = None \<and>
       (None :: string option) = None \<or>
       None = Some \<lparr>opt_limit = None, opt_before = None\<rparr> \<and> (None :: string option) = None \<or>
       (\<exists>btid bns. btid \<noteq> [] \<and>
          None = Some \<lparr>opt_limit = None,
                          opt_before = Some \<lparr>thread_id = Some btid, checkpoint_ns = bns,
                                              checkpoint_id = None\<rparr>\<rparr>)"
    by simp
  have o1: "?lim1 = None \<and> Some 1 = None \<and> (None :: string option) = None \<or>
       ?lim1 = Some \<lparr>opt_limit = Some 1, opt_before = None\<rparr> \<and> (None :: string option) = None \<or>
       (\<exists>btid bns. btid \<noteq> [] \<and>
          ?lim1 = Some \<lparr>opt_limit = Some 1,
                          opt_before = Some \<lparr>thread_id = Some btid, checkpoint_ns = bns,
                                              checkpoint_id = None\<rparr>\<rparr>)"
    by simp
  have o2: "?cur = None \<and> (None :: int option) = None \<and> Some ''c3'' = None \<or>
       ?cur = Some \<lparr>opt_limit = None, opt_before = None\<rparr> \<and> Some ''c3'' = None \<or>
       (\<exists>btid bns. btid \<noteq> [] \<and>
          ?cur = Some \<lparr>opt_limit = None,
                          opt_before = Some \<lparr>thread_id = Some btid, checkpoint_ns = bns,
                                              checkpoint_id = Some ''c3''\<rparr>\<rparr>)"
    by simp
  note w0 = list_newest_first [OF r cfg tid ns o0 cap100]
  note w1 = list_newest_first [OF r cfg tid ns o1 cap1]
  note w2 = list_newest_first [OF r cfg tid ns o2 cap100]
  show ?thesis
    by (intro conjI r i y0 y1 y2 w1 [THEN conjunct2, THEN conjunct2, THEN conjunct1]
          w2 [THEN conjunct1] w0 [THEN conjunct2, THEN conjunct2, THEN conjunct1])
qed

subsection \<open>The active branch\<close>

text \<open>
  C6. On every store that the operations produce from the empty store, a thread has at
  most one \<open>ACTIVE_BRANCH\<close> relationship. Switching the active branch is the single
  query \<open>CYPHER_SET_ACTIVE_BRANCH\<close>. With the id of a branch of the thread it is a swap:
  the \<open>ACTIVE_BRANCH\<close> relationships of the thread are removed and the one to the new
  branch is added, and nothing else changes. With an id that no branch of the thread
  has it is not: the query deletes the old relationship before it matches the new
  branch, so the old relationship is removed and none is added, and the thread is
  left without an active branch. A later \<open>put\<close> on the thread then completes without
  moving any \<open>HEAD\<close>.
\<close>

theorem active_branch_switch:
  assumes "reachable sd s"
  shows "(\<forall>t. length (out_of (ACTIVE_BRANCH s) t) \<le> 1) \<and>
     (\<forall>tid ns bid t b bk.
        match_thread s tid ns = [t] \<and>
        (b, bk) \<in> set (targets (HAS_BRANCH s) (Branches s) t) \<and> b_branch_id bk = bid \<longrightarrow>
        CYPHER_SET_ACTIVE_BRANCH s tid ns bid =
          (s\<lparr>ACTIVE_BRANCH := filter (\<lambda>(a, x). a \<noteq> t) (ACTIVE_BRANCH s) @ [(t, b)]\<rparr>, 1)) \<and>
     (\<forall>tid ns bid t.
        match_thread s tid ns = [t] \<and>
        filter (\<lambda>(b, bk). b_branch_id bk = bid) (targets (HAS_BRANCH s) (Branches s) t) = [] \<longrightarrow>
        CYPHER_SET_ACTIVE_BRANCH s tid ns bid =
          (s\<lparr>ACTIVE_BRANCH := filter (\<lambda>(a, x). a \<noteq> t) (ACTIVE_BRANCH s)\<rparr>, 0) \<and>
        out_of (ACTIVE_BRANCH (fst (CYPHER_SET_ACTIVE_BRANCH s tid ns bid))) t = [])"
proof -
  have "consistent s" using assms by (rule reachable_consistent)
  then have br: "inv_branches s" by (simp add: consistent_def)
  have a: "length (out_of (ACTIVE_BRANCH s) t) \<le> 1" for t
    using br by (intro out_of_le1) (simp add: inv_branches_def)
  have b: "CYPHER_SET_ACTIVE_BRANCH s tid ns bid =
          (s\<lparr>ACTIVE_BRANCH := filter (\<lambda>(a, x). a \<noteq> t) (ACTIVE_BRANCH s) @ [(t, b)]\<rparr>, 1)"
    if "match_thread s tid ns = [t]"
      and "(b, bk) \<in> set (targets (HAS_BRANCH s) (Branches s) t)" and "b_branch_id bk = bid"
    for tid ns bid t b bk
    using set_active_swap [OF br that] .
  have c: "CYPHER_SET_ACTIVE_BRANCH s tid ns bid =
          (s\<lparr>ACTIVE_BRANCH := filter (\<lambda>(a, x). a \<noteq> t) (ACTIVE_BRANCH s)\<rparr>, 0) \<and>
        out_of (ACTIVE_BRANCH (fst (CYPHER_SET_ACTIVE_BRANCH s tid ns bid))) t = []"
    if t: "match_thread s tid ns = [t]"
      and n: "filter (\<lambda>(b, bk). b_branch_id bk = bid) (targets (HAS_BRANCH s) (Branches s) t) = []"
    for tid ns bid t
  proof -
    have "CYPHER_SET_ACTIVE_BRANCH s tid ns bid =
          (s\<lparr>ACTIVE_BRANCH := filter (\<lambda>(a, x). a \<noteq> t) (ACTIVE_BRANCH s)\<rparr>, 0)"
      using set_active_unknown [of s tid ns bid] n by (simp add: t)
    then show ?thesis
      by (auto simp: out_of_def filter_empty_conv)
  qed
  show ?thesis
    by (intro conjI allI impI a) (use b c in blast)+
qed


theorem active_branch_switch_witness:
  "reachable sample_serde store_b2 \<and>
   match_thread store_b2 ''t1'' [] = [0] \<and>
   (5, \<lparr>b_branch_id = ''b2'', b_name = ''dev'', b_fork_point_id = Some ''c2''\<rparr>)
     \<in> set (targets (HAS_BRANCH store_b2) (Branches store_b2) 0) \<and>
   ACTIVE_BRANCH store_b2 = [(0, 4)] \<and>
   length (out_of (ACTIVE_BRANCH store_b2) 0) \<le> 1 \<and>
   CYPHER_SET_ACTIVE_BRANCH store_b2 ''t1'' [] ''b2'' =
     (store_b2\<lparr>ACTIVE_BRANCH := filter (\<lambda>(a, x). a \<noteq> 0) (ACTIVE_BRANCH store_b2) @ [(0, 5)]\<rparr>, 1) \<and>
   ACTIVE_BRANCH (fst (CYPHER_SET_ACTIVE_BRANCH store_b2 ''t1'' [] ''b2'')) = [(0, 5)] \<and>
   reachable sample_serde store_c2 \<and>
   match_thread store_c2 ''t1'' [] = [0] \<and>
   filter (\<lambda>(b, bk). b_branch_id bk = ''nope'')
     (targets (HAS_BRANCH store_c2) (Branches store_c2) 0) = [] \<and>
   ACTIVE_BRANCH store_c2 = [(0, 4)] \<and>
   CYPHER_SET_ACTIVE_BRANCH store_c2 ''t1'' [] ''nope'' =
     (store_c2\<lparr>ACTIVE_BRANCH := filter (\<lambda>(a, x). a \<noteq> 0) (ACTIVE_BRANCH store_c2)\<rparr>, 0) \<and>
   ACTIVE_BRANCH (fst (CYPHER_SET_ACTIVE_BRANCH store_c2 ''t1'' [] ''nope'')) = [] \<and>
   snd (put sample_serde (fst (CYPHER_SET_ACTIVE_BRANCH store_c2 ''t1'' [] ''nope''))
          (thread_t1\<lparr>checkpoint_id := Some ''c2''\<rparr>) checkpoint_c3 sample_metadata JNull ''u2'') =
     Inr \<lparr>thread_id = Some ''t1'', checkpoint_ns = Some [], checkpoint_id = Some ''c3''\<rparr> \<and>
   HEAD (fst (put sample_serde (fst (CYPHER_SET_ACTIVE_BRANCH store_c2 ''t1'' [] ''nope''))
          (thread_t1\<lparr>checkpoint_id := Some ''c2''\<rparr>) checkpoint_c3 sample_metadata JNull ''u2'')) =
     HEAD store_c2 \<and>
   HEAD store_c3 = [(4, 5)] \<and> HEAD store_c2 = [(4, 1)]"
proof -
  have r2: "reachable sample_serde store_c2"
    unfolding store_c2_def by (intro reachable.put reachable.start)
  have "CYPHER_CREATE_BRANCH store_c2 ''t1'' [] ''b2'' ''dev'' ''c2'' = Inr (store_b2, 1)"
    by code_simp
  then have r: "reachable sample_serde store_b2"
    using reachable.createBranch [OF r2] by blast
  have t: "match_thread store_b2 ''t1'' [] = [0]"
    by code_simp
  have b: "(5, \<lparr>b_branch_id = ''b2'', b_name = ''dev'', b_fork_point_id = Some ''c2''\<rparr>)
     \<in> set (targets (HAS_BRANCH store_b2) (Branches store_b2) 0)"
    by code_simp
  have a: "ACTIVE_BRANCH store_b2 = [(0, 4)]"
    by code_simp
  have a': "ACTIVE_BRANCH (fst (CYPHER_SET_ACTIVE_BRANCH store_b2 ''t1'' [] ''b2'')) = [(0, 5)]"
    by code_simp
  have t2: "match_thread store_c2 ''t1'' [] = [0]"
    by code_simp
  have n2: "filter (\<lambda>(b, bk). b_branch_id bk = ''nope'')
     (targets (HAS_BRANCH store_c2) (Branches store_c2) 0) = []"
    by code_simp
  have a2: "ACTIVE_BRANCH store_c2 = [(0, 4)]"
    by code_simp
  have a2': "ACTIVE_BRANCH (fst (CYPHER_SET_ACTIVE_BRANCH store_c2 ''t1'' [] ''nope'')) = []"
    by code_simp
  have p: "snd (put sample_serde (fst (CYPHER_SET_ACTIVE_BRANCH store_c2 ''t1'' [] ''nope''))
          (thread_t1\<lparr>checkpoint_id := Some ''c2''\<rparr>) checkpoint_c3 sample_metadata JNull ''u2'') =
     Inr \<lparr>thread_id = Some ''t1'', checkpoint_ns = Some [], checkpoint_id = Some ''c3''\<rparr>"
    by code_simp
  have h: "HEAD (fst (put sample_serde (fst (CYPHER_SET_ACTIVE_BRANCH store_c2 ''t1'' [] ''nope''))
          (thread_t1\<lparr>checkpoint_id := Some ''c2''\<rparr>) checkpoint_c3 sample_metadata JNull ''u2'')) =
     HEAD store_c2"
    by code_simp
  have h3: "HEAD store_c3 = [(4, 5)]" and h2: "HEAD store_c2 = [(4, 1)]"
    by code_simp+
  from active_branch_switch [OF r] t b
  have s1: "length (out_of (ACTIVE_BRANCH store_b2) 0) \<le> 1 \<and>
     CYPHER_SET_ACTIVE_BRANCH store_b2 ''t1'' [] ''b2'' =
       (store_b2\<lparr>ACTIVE_BRANCH := filter (\<lambda>(a, x). a \<noteq> 0) (ACTIVE_BRANCH store_b2) @ [(0, 5)]\<rparr>, 1)"
    by (metis Branch.select_convs(1))
  from active_branch_switch [OF r2] t2 n2
  have s2: "CYPHER_SET_ACTIVE_BRANCH store_c2 ''t1'' [] ''nope'' =
     (store_c2\<lparr>ACTIVE_BRANCH := filter (\<lambda>(a, x). a \<noteq> 0) (ACTIVE_BRANCH store_c2)\<rparr>, 0)"
    by blast
  show ?thesis
    by (intro conjI r t b a a' r2 t2 n2 a2 a2' p h h3 h2 s1 [THEN conjunct1] s1 [THEN conjunct2] s2)
qed

subsection \<open>Branch operations\<close>

text \<open>
  C5, as the specification states it: the saver offers the operations \<open>createBranch\<close>,
  \<open>setActiveBranch\<close>, \<open>listBranches\<close> and \<open>deleteBranch\<close>, and switching to a branch
  that is not a branch of the thread fails with \<open>BranchNotFoundError\<close>. The class has
  no member of these names, and the one piece of code that switches the active branch,
  the query \<open>CYPHER_SET_ACTIVE_BRANCH\<close>, returns no row and no error for the branch id
  \<open>nope\<close> on a thread whose only branch is \<open>u1\<close>.
\<close>

theorem no_branch_operations:
  "set [''createBranch'', ''setActiveBranch'', ''listBranches'', ''deleteBranch'']
     \<inter> set Neo4jSaver_members = {} \<and>
   map (\<lambda>(n, b). b_branch_id b) (Branches store_c2) = [''u1''] \<and>
   snd (CYPHER_SET_ACTIVE_BRANCH store_c2 ''t1'' [] ''nope'') = 0"
  by code_simp

text \<open>
  C5, amended: the members of the saver are \<open>put\<close>, \<open>putWrites\<close>, \<open>getTuple\<close>,
  \<open>list\<close>, \<open>deleteThread\<close>, \<open>setup\<close>, \<open>close\<close> and those it inherits, with no branch
  operation among them; to switch the active branch a caller runs the exported query
  \<open>CYPHER_SET_ACTIVE_BRANCH\<close>. With a branch id that no branch of the thread has, the
  query raises no error: it returns no row, makes no branch active, and changes nothing
  but \<open>ACTIVE_BRANCH\<close> relationships.
\<close>

theorem set_active_unknown_branch:
  assumes "\<forall>t \<in> set (match_thread s tid ns).
     filter (\<lambda>(b, bk). b_branch_id bk = bid) (targets (HAS_BRANCH s) (Branches s) t) = []"
  shows "snd (CYPHER_SET_ACTIVE_BRANCH s tid ns bid) = 0 \<and>
     set (ACTIVE_BRANCH (fst (CYPHER_SET_ACTIVE_BRANCH s tid ns bid))) \<subseteq> set (ACTIVE_BRANCH s) \<and>
     (fst (CYPHER_SET_ACTIVE_BRANCH s tid ns bid))\<lparr>ACTIVE_BRANCH := ACTIVE_BRANCH s\<rparr> = s \<and>
     set [''put'', ''putWrites'', ''getTuple'', ''list'', ''deleteThread'', ''setup'', ''close'']
       \<subseteq> set Neo4jSaver_members \<and>
     set [''createBranch'', ''setActiveBranch'', ''listBranches'', ''deleteBranch'']
       \<inter> set Neo4jSaver_members = {}"
proof -
  define rows where "rows = concat (map (\<lambda>t. map (\<lambda>old. t) (optional (out_of (ACTIVE_BRANCH s) t)))
      (match_thread s tid ns))"
  have sub: "set rows \<subseteq> set (match_thread s tid ns)"
    unfolding rows_def by auto
  have "concat (map (\<lambda>t. map (\<lambda>(b, bk). (t, b))
           (filter (\<lambda>(b, bk). b_branch_id bk = bid) (targets (HAS_BRANCH s) (Branches s) t))) rows) = []"
    using sub assms by (induction rows) auto
  then have "CYPHER_SET_ACTIVE_BRANCH s tid ns bid =
     (s\<lparr>ACTIVE_BRANCH := filter (\<lambda>(t, b). t \<notin> set (match_thread s tid ns)) (ACTIVE_BRANCH s)\<rparr>, 0)"
    by (simp add: CYPHER_SET_ACTIVE_BRANCH_def Let_def rows_def [symmetric])
  moreover have "set [''put'', ''putWrites'', ''getTuple'', ''list'', ''deleteThread'', ''setup'', ''close'']
       \<subseteq> set Neo4jSaver_members"
    by (simp add: Neo4jSaver_members_def)
  moreover have "set [''createBranch'', ''setActiveBranch'', ''listBranches'', ''deleteBranch'']
       \<inter> set Neo4jSaver_members = {}"
    by (simp add: Neo4jSaver_members_def)
  ultimately show ?thesis
    by simp
qed

theorem set_active_unknown_branch_witness:
  "match_thread store_c2 ''t1'' [] = [0] \<and>
   filter (\<lambda>(b, bk). b_branch_id bk = ''nope'') (targets (HAS_BRANCH store_c2) (Branches store_c2) 0) = [] \<and>
   snd (CYPHER_SET_ACTIVE_BRANCH store_c2 ''t1'' [] ''nope'') = 0 \<and>
   (fst (CYPHER_SET_ACTIVE_BRANCH store_c2 ''t1'' [] ''nope''))\<lparr>ACTIVE_BRANCH := ACTIVE_BRANCH store_c2\<rparr>
     = store_c2"
proof -
  have t: "match_thread store_c2 ''t1'' [] = [0]"
    by code_simp
  have f: "filter (\<lambda>(b, bk). b_branch_id bk = ''nope'')
             (targets (HAS_BRANCH store_c2) (Branches store_c2) 0) = []"
    by code_simp
  have "\<forall>t \<in> set (match_thread store_c2 ''t1'' []).
     filter (\<lambda>(b, bk). b_branch_id bk = ''nope'') (targets (HAS_BRANCH store_c2) (Branches store_c2) t) = []"
    using f by (simp add: t)
  from set_active_unknown_branch [OF this] t f show ?thesis
    by blast
qed

subsection \<open>Reading back what \<open>put\<close> wrote\<close>

text \<open>
  C1. A checkpoint written by \<open>put\<close> is to be returned by \<open>getTuple\<close> with that
  checkpoint id. The second sample checkpoint is: \<open>getTuple\<close> returns a tuple with the
  checkpoint and the metadata that were written. The first sample checkpoint, whose
  channel \<open>a\<close> holds the plain object \<open>{"__serde_type__": "x"}\<close>, is written by \<open>put\<close>
  without an error, the value stored with type \<open>"json"\<close>; \<open>getTuple\<close> with its id, and
  \<open>getTuple\<close> for the latest checkpoint of the thread, then fail with a \<open>TypeError\<close>:
  \<open>loadBlobs\<close> takes the stored value for a serializer's wrapper because of its key.
\<close>

theorem marker_key_not_read_back:
  "snd (put sample_serde (empty_store True) thread_t1 checkpoint_c1 sample_metadata JNull ''u1'') =
     Inr \<lparr>thread_id = Some ''t1'', checkpoint_ns = Some [], checkpoint_id = Some ''c1''\<rparr> \<and>
   map (\<lambda>(n, x). (cs_channel x, cs_type x))
     (ChannelStates
        (fst (put sample_serde (empty_store True) thread_t1 checkpoint_c1 sample_metadata JNull ''u1'')))
     = [(''a'', ''json'')] \<and>
   getTuple sample_serde
     (fst (put sample_serde (empty_store True) thread_t1 checkpoint_c1 sample_metadata JNull ''u1''))
     (thread_t1\<lparr>checkpoint_id := Some ''c1''\<rparr>) = Inl TypeError \<and>
   getTuple sample_serde
     (fst (put sample_serde (empty_store True) thread_t1 checkpoint_c1 sample_metadata JNull ''u1''))
     thread_t1 = Inl TypeError \<and>
   getTuple sample_serde store_c2 (thread_t1\<lparr>checkpoint_id := Some ''c2''\<rparr>) =
     Inr (Some \<lparr>t_config = \<lparr>thread_id = Some ''t1'', checkpoint_ns = Some [], checkpoint_id = Some ''c2''\<rparr>,
                t_checkpoint = checkpoint_c2, t_metadata = sample_metadata,
                t_parentConfig = None, t_pendingWrites = []\<rparr>)"
  by code_simp

subsection \<open>The ChannelState rows that \<open>getTuple\<close> fetches\<close>

text \<open>
  C2. On every store that the operations produce from the empty store, with a
  serializer that gives back what it was given: let \<open>r\<close> be a record of a checkpoint
  that one of the three reading queries of \<open>getTuple\<close> returns, and \<open>cp\<close> the payload
  decoded from it. Every ChannelState row that \<open>CYPHER_GET_CHANNEL_STATES\<close> returns for
  the channels and versions of \<open>cp\<close> has a channel of \<open>cp\<close>'s channel versions, and its
  version is the version of that very channel, \<open>String(channelVersions[channel])\<close>; so
  no row carries the version of another channel or a version that the checkpoint does
  not have for the channel.
\<close>

theorem channel_rows_exact:
  assumes reach: "reachable sd s" and rt: "serde_round_trip sd"
    and rec: "r \<in> set (CYPHER_GET_CHECKPOINT_BY_ID s tid ns cid) \<union>
                 set (CYPHER_GET_ACTIVE_BRANCH_HEAD s tid ns) \<union>
                 set (CYPHER_GET_LATEST_CHECKPOINT s tid ns)"
    and load: "loadCheckpoint sd (cr_type r) (cr_checkpoint r) = Inr cp"
    and row: "x \<in> set (CYPHER_GET_CHANNEL_STATES s (cr_checkpoint_id r)
                 (map fst (object_entries (channel_versions_of cp)))
                 (map (\<lambda>kv. js_String (snd kv)) (object_entries (channel_versions_of cp))))"
  shows "cs_channel x \<in> fst ` set (object_entries (channel_versions_of cp)) \<and>
     cs_version x = channel_version (channel_versions_of cp) (cs_channel x) \<and>
     (\<not> nullish (get_prop (channel_versions_of cp) (cs_channel x)) \<longrightarrow>
        cs_version x = js_String (get_prop (channel_versions_of cp) (cs_channel x)))"
proof -
  have con: "consistent s" using reach by (rule reachable_consistent)
  then have dist: "distinct (map (\<lambda>(n, c). cp_checkpoint_id c) (Checkpoints s))"
    by (simp add: consistent_def inv_history_def)
  have inv: "inv_links sd s" using rt reach by (rule reachable_links)
  from read_record_source [OF rec] obtain c0 ck0 where
    ck0: "(c0, ck0) \<in> set (Checkpoints s)" "cr_checkpoint_id r = cp_checkpoint_id ck0"
      "cr_type r = cp_type ck0" "cr_checkpoint r = cp_checkpoint ck0"
    by blast
  from row obtain c n where c: "c \<in> set (match_checkpoint s (cr_checkpoint_id r))"
    and t: "(n, x) \<in> set (targets (HAS_CHANNEL s) (ChannelStates s) c)"
    and ch: "cs_channel x \<in> fst ` set (object_entries (channel_versions_of cp))"
    by (auto simp: CYPHER_GET_CHANNEL_STATES_def)
  from c obtain ck where ck: "(c, ck) \<in> set (Checkpoints s)"
    "cp_checkpoint_id ck = cr_checkpoint_id r"
    by (auto simp: match_checkpoint_def)
  have same: "ck = ck0"
    using dist ck ck0(1,2)
    by (metis (mono_tags, lifting) case_prod_conv distinct_map_eq prod.inject)
  from targets_mem [OF t] have e: "(c, n) \<in> set (HAS_CHANNEL s)" "(n, x) \<in> set (ChannelStates s)"
    by simp_all
  from inv e ck(1) have "linked sd ck x"
    unfolding inv_links_def by blast
  with load have v: "cs_version x = channel_version (channel_versions_of cp) (cs_channel x)"
    by (auto simp: linked_def same ck0(3,4) [symmetric])
  have "cs_version x = js_String (get_prop (channel_versions_of cp) (cs_channel x))"
    if "\<not> nullish (get_prop (channel_versions_of cp) (cs_channel x))"
    using v that by (simp add: channel_version_def coalesce_def)
  with ch v show ?thesis by blast
qed

theorem channel_rows_exact_witness:
  "reachable sample_serde store_c3 \<and> serde_round_trip sample_serde \<and>
   map cr_checkpoint_id (CYPHER_GET_CHECKPOINT_BY_ID store_c3 ''t1'' [] ''c3'') = [''c3''] \<and>
   loadCheckpoint sample_serde
     (cr_type (hd (CYPHER_GET_CHECKPOINT_BY_ID store_c3 ''t1'' [] ''c3'')))
     (cr_checkpoint (hd (CYPHER_GET_CHECKPOINT_BY_ID store_c3 ''t1'' [] ''c3''))) = Inr checkpoint_c3 \<and>
   object_entries (channel_versions_of checkpoint_c3) = [(''a'', JNum 1), (''b'', JNum 8)] \<and>
   CYPHER_GET_CHANNEL_STATES store_c3 ''c3''
     (map fst (object_entries (channel_versions_of checkpoint_c3)))
     (map (\<lambda>kv. js_String (snd kv)) (object_entries (channel_versions_of checkpoint_c3))) =
     [\<lparr>cs_channel = ''a'', cs_version = ''1'', cs_type = ''json'', cs_blob = JsonStr ''hello''\<rparr>,
      \<lparr>cs_channel = ''b'', cs_version = ''8'', cs_type = ''json'', cs_blob = JsonStr ''x''\<rparr>] \<and>
   channel_version (channel_versions_of checkpoint_c3) ''b'' = ''8''"
proof -
  let ?r = "hd (CYPHER_GET_CHECKPOINT_BY_ID store_c3 ''t1'' [] ''c3'')"
  let ?x = "\<lparr>cs_channel = ''b'', cs_version = ''8'', cs_type = ''json'', cs_blob = JsonStr ''x''\<rparr>"
  have r: "reachable sample_serde store_c3"
    unfolding store_c3_def store_c2_def by (intro reachable.put reachable.start)
  have rt: "serde_round_trip sample_serde"
    unfolding sample_serde_def by (rule codebook_round_trip) simp
  have ids: "map cr_checkpoint_id (CYPHER_GET_CHECKPOINT_BY_ID store_c3 ''t1'' [] ''c3'') = [''c3'']"
    by code_simp
  then have rec: "?r \<in> set (CYPHER_GET_CHECKPOINT_BY_ID store_c3 ''t1'' [] ''c3'') \<union>
                 set (CYPHER_GET_ACTIVE_BRANCH_HEAD store_c3 ''t1'' []) \<union>
                 set (CYPHER_GET_LATEST_CHECKPOINT store_c3 ''t1'' [])"
    by (cases "CYPHER_GET_CHECKPOINT_BY_ID store_c3 ''t1'' [] ''c3''") simp_all
  have id: "cr_checkpoint_id ?r = ''c3''"
    by code_simp
  have load: "loadCheckpoint sample_serde (cr_type ?r) (cr_checkpoint ?r) = Inr checkpoint_c3"
    by code_simp
  have es: "object_entries (channel_versions_of checkpoint_c3) = [(''a'', JNum 1), (''b'', JNum 8)]"
    by code_simp
  have rows: "CYPHER_GET_CHANNEL_STATES store_c3 ''c3''
     (map fst (object_entries (channel_versions_of checkpoint_c3)))
     (map (\<lambda>kv. js_String (snd kv)) (object_entries (channel_versions_of checkpoint_c3))) =
     [\<lparr>cs_channel = ''a'', cs_version = ''1'', cs_type = ''json'', cs_blob = JsonStr ''hello''\<rparr>, ?x]"
    by code_simp
  then have row: "?x \<in> set (CYPHER_GET_CHANNEL_STATES store_c3 (cr_checkpoint_id ?r)
     (map fst (object_entries (channel_versions_of checkpoint_c3)))
     (map (\<lambda>kv. js_String (snd kv)) (object_entries (channel_versions_of checkpoint_c3))))"
    unfolding id by simp
  from channel_rows_exact [OF r rt rec load row]
  have "channel_version (channel_versions_of checkpoint_c3) ''b'' = ''8''"
    by simp
  with r rt ids load es rows show ?thesis by blast
qed

end
